theory Spec2Isabelle
  imports Main "HOL-Library.Word" "HOL-Library.Monad_Syntax"
begin

unbundle bit_operations_syntax

section \<open>The Snek core (\<^verbatim>\<open>src/snake_core.c\<close>)\<close>

text \<open>
  A shallow embedding of the simulation, input handling and save-state code of
  \<^verbatim>\<open>snake_core.c\<close>. The C file keeps the whole game in static variables; here they are
  the fields of one record that every operation takes and returns.

  Conventions of the embedding:
  \<^item> a C \<^verbatim>\<open>int\<close> is a 32-bit word, compared with the signed orders \<open><s\<close> and \<open>\<le>s\<close>;
    \<^verbatim>\<open>unsigned long\<close> is a 64-bit word (an LP64 target: \<^verbatim>\<open>sizeof(int) = 4\<close>,
    \<^verbatim>\<open>sizeof(unsigned long) = 8\<close>, enums stored in 4 bytes);
  \<^item> the three enums are kept as the 32-bit values the C objects hold, with the
    enumerators as named constants, because \<^verbatim>\<open>retro_unserialize\<close> fills them by
    \<^verbatim>\<open>memcpy\<close> from caller-supplied bytes;
  \<^item> \<^verbatim>\<open>rand()\<close> is an oracle: the sequence of values it returns is a parameter, the
    number of calls made so far is part of the state;
  \<^item> loops without a bound (\<^verbatim>\<open>random_free_cell\<close>, the retry loop of
    \<^verbatim>\<open>spawn_obstacles\<close>) are partial functions into \<open>option\<close>: \<open>None\<close> means that the
    loop never ends;
  \<^item> memory handed in by the caller (the save-state buffer) is a flat byte store indexed
    by address.
\<close>

subsection \<open>Configuration constants\<close>

type_synonym cint = "32 word"
type_synonym ulong = "64 word"
type_synonym byte = "8 word"

definition GRID_W :: nat where "GRID_W = 40"
definition GRID_H :: nat where "GRID_H = 30"
definition MAX_SNAKE_LENGTH :: nat where "MAX_SNAKE_LENGTH = GRID_W * GRID_H"
definition MAX_PARTICLES :: nat where "MAX_PARTICLES = 128"
definition PHASE_DURATION :: cint where "PHASE_DURATION = 60 * 5"
definition SPEED_DURATION :: cint where "SPEED_DURATION = 60 * 5"
definition BASE_MOVE_INTERVAL :: cint where "BASE_MOVE_INTERVAL = 8"

subsection \<open>Enumerations\<close>

type_synonym game_state_t = "32 word"
type_synonym direction_t = "32 word"
type_synonym item_type_t = "32 word"

definition STATE_TITLE :: game_state_t where "STATE_TITLE = 0"
definition STATE_PLAY :: game_state_t where "STATE_PLAY = 1"
definition STATE_PAUSE :: game_state_t where "STATE_PAUSE = 2"
definition STATE_GAMEOVER :: game_state_t where "STATE_GAMEOVER = 3"

definition DIR_UP :: direction_t where "DIR_UP = 0"
definition DIR_DOWN :: direction_t where "DIR_DOWN = 1"
definition DIR_LEFT :: direction_t where "DIR_LEFT = 2"
definition DIR_RIGHT :: direction_t where "DIR_RIGHT = 3"

definition ITEM_NONE :: item_type_t where "ITEM_NONE = 0"
definition ITEM_PHASE :: item_type_t where "ITEM_PHASE = 1"
definition ITEM_SPEED :: item_type_t where "ITEM_SPEED = 2"

subsection \<open>The static variables\<close>

text \<open>
  Of a particle only the fields that decide control flow are kept: the \<^verbatim>\<open>active\<close> flag
  (which slots \<^verbatim>\<open>spawn_particles\<close> fills, hence how often it calls \<^verbatim>\<open>rand()\<close>) and the
  integer \<^verbatim>\<open>lifetime\<close>. Position, velocity and colour are written but read only by the
  renderer.
\<close>

record particle_t =
  active :: bool
  lifetime :: cint

text \<open>
  \<^verbatim>\<open>obstacle[GRID_W][GRID_H]\<close> is indexed by the pair \<open>(x, y)\<close>; every access of the source
  has \<open>x < GRID_W\<close> and \<open>y < GRID_H\<close>. \<open>prev_start\<close> and \<open>prev_select\<close> are the function-level
  statics of \<^verbatim>\<open>handle_input\<close>, of which only the truth value is ever read. \<open>rand_calls\<close>
  counts the calls of \<^verbatim>\<open>rand()\<close> made so far.
\<close>

record game =
  snake_x :: "cint list"
  snake_y :: "cint list"
  snake_length :: cint
  snake_dir :: direction_t
  pending_dir :: direction_t
  food_x :: cint
  food_y :: cint
  item_type :: item_type_t
  item_x :: cint
  item_y :: cint
  phase_timer :: cint
  speed_timer :: cint
  particles :: "particle_t list"
  obstacle :: "nat \<times> nat \<Rightarrow> cint"
  obstacle_count :: cint
  score :: cint
  highscore :: cint
  state :: game_state_t
  move_counter :: cint
  frame_count :: ulong
  prev_start :: bool
  prev_select :: bool
  rand_calls :: nat

text \<open>The values the static initialisers give the variables when the core is loaded.\<close>

definition power_on :: game where
  "power_on =
     \<lparr>snake_x = replicate MAX_SNAKE_LENGTH 0, snake_y = replicate MAX_SNAKE_LENGTH 0,
      snake_length = 0, snake_dir = DIR_RIGHT, pending_dir = DIR_RIGHT,
      food_x = 0, food_y = 0, item_type = ITEM_NONE, item_x = 0, item_y = 0,
      phase_timer = 0, speed_timer = 0,
      particles = replicate MAX_PARTICLES \<lparr>active = False, lifetime = 0\<rparr>,
      obstacle = (\<lambda>_. 0), obstacle_count = 0, score = 0, highscore = 0,
      state = STATE_TITLE, move_counter = BASE_MOVE_INTERVAL, frame_count = 0,
      prev_start = False, prev_select = False, rand_calls = 0\<rparr>"

subsection \<open>Caller memory and object representations\<close>

type_synonym memory = "nat \<Rightarrow> byte"

text \<open>The bytes of an integer object, lowest address first (little-endian).\<close>

fun le_bytes :: "nat \<Rightarrow> 'a::len word \<Rightarrow> byte list" where
  "le_bytes 0 w = []"
| "le_bytes (Suc n) w = ucast w # le_bytes n (drop_bit 8 w)"

fun le_word :: "byte list \<Rightarrow> 'a::len word" where
  "le_word [] = 0"
| "le_word (b # bs) = ucast b OR push_bit 8 (le_word bs)"

definition sizeof_int :: nat where "sizeof_int = 4"
definition sizeof_enum :: nat where "sizeof_enum = 4"
definition sizeof_unsigned_long :: nat where "sizeof_unsigned_long = 8"

definition int_rep :: "cint \<Rightarrow> byte list" where
  "int_rep w = le_bytes sizeof_int w"

definition ulong_rep :: "ulong \<Rightarrow> byte list" where
  "ulong_rep w = le_bytes sizeof_unsigned_long w"

definition array_rep :: "cint list \<Rightarrow> byte list" where
  "array_rep xs = concat (map int_rep xs)"

fun chunks :: "nat \<Rightarrow> nat \<Rightarrow> byte list \<Rightarrow> byte list list" where
  "chunks 0 k bs = []"
| "chunks (Suc n) k bs = take k bs # chunks n k (drop k bs)"

definition array_of_rep :: "nat \<Rightarrow> byte list \<Rightarrow> cint list" where
  "array_of_rep n bs = map le_word (chunks n sizeof_int bs)"

text \<open>
  \<open>store m dst src n\<close> is \<^verbatim>\<open>memcpy(dst, src, n)\<close> into caller memory, \<open>src\<close> being the
  object representation of the source object; \<open>load m src n\<close> are the \<open>n\<close> bytes that
  \<^verbatim>\<open>memcpy(&object, src, n)\<close> copies out of caller memory.
\<close>

definition store :: "memory \<Rightarrow> nat \<Rightarrow> byte list \<Rightarrow> nat \<Rightarrow> memory" where
  "store m dst src n = (\<lambda>a. if dst \<le> a \<and> a < dst + n then src ! (a - dst) else m a)"

definition load :: "memory \<Rightarrow> nat \<Rightarrow> nat \<Rightarrow> byte list" where
  "load m src n = map m [src..<src + n]"

subsection \<open>Save states\<close>

definition retro_serialize_size :: nat where
  "retro_serialize_size =
     sizeof_int * (2 * MAX_SNAKE_LENGTH + 5) + sizeof_enum + sizeof_unsigned_long"

definition retro_serialize :: "game \<Rightarrow> memory \<Rightarrow> nat \<Rightarrow> nat \<Rightarrow> bool \<times> memory" where
  "retro_serialize s m data bufsize =
    (let needed = retro_serialize_size in
     if bufsize < needed then (False, m)
     else
      let ptr = data;
          m = store m ptr (array_rep (snake_x s)) (sizeof_int * MAX_SNAKE_LENGTH);
          ptr = ptr + sizeof_int * MAX_SNAKE_LENGTH;
          m = store m ptr (array_rep (snake_y s)) (sizeof_int * MAX_SNAKE_LENGTH);
          ptr = ptr + sizeof_int * MAX_SNAKE_LENGTH;
          m = store m ptr (int_rep (snake_length s)) sizeof_int;
          ptr = ptr + sizeof_int;
          m = store m ptr (int_rep (snake_dir s)) sizeof_enum;
          ptr = ptr + sizeof_enum;
          m = store m ptr (int_rep (food_x s)) sizeof_int;
          ptr = ptr + sizeof_int;
          m = store m ptr (int_rep (food_y s)) sizeof_int;
          ptr = ptr + sizeof_int;
          m = store m ptr (int_rep (item_type s)) sizeof_enum;
          ptr = ptr + sizeof_enum;
          m = store m ptr (int_rep (item_x s)) sizeof_int;
          ptr = ptr + sizeof_int;
          m = store m ptr (int_rep (item_y s)) sizeof_int;
          ptr = ptr + sizeof_int;
          m = store m ptr (int_rep (phase_timer s)) sizeof_int;
          ptr = ptr + sizeof_int;
          m = store m ptr (int_rep (speed_timer s)) sizeof_int;
          ptr = ptr + sizeof_int;
          m = store m ptr (int_rep (score s)) sizeof_int;
          ptr = ptr + sizeof_int;
          m = store m ptr (int_rep (highscore s)) sizeof_int;
          ptr = ptr + sizeof_int;
          m = store m ptr (int_rep (state s)) sizeof_enum;
          ptr = ptr + sizeof_enum;
          m = store m ptr (int_rep (move_counter s)) sizeof_int;
          ptr = ptr + sizeof_int;
          m = store m ptr (ulong_rep (frame_count s)) sizeof_unsigned_long
      in (True, m))"

definition retro_unserialize :: "memory \<Rightarrow> nat \<Rightarrow> nat \<Rightarrow> game \<Rightarrow> bool \<times> game" where
  "retro_unserialize m data bufsize s =
    (let needed = retro_serialize_size in
     if bufsize < needed then (False, s)
     else
      let ptr = data;
          s = s\<lparr>snake_x := array_of_rep MAX_SNAKE_LENGTH (load m ptr (sizeof_int * MAX_SNAKE_LENGTH))\<rparr>;
          ptr = ptr + sizeof_int * MAX_SNAKE_LENGTH;
          s = s\<lparr>snake_y := array_of_rep MAX_SNAKE_LENGTH (load m ptr (sizeof_int * MAX_SNAKE_LENGTH))\<rparr>;
          ptr = ptr + sizeof_int * MAX_SNAKE_LENGTH;
          s = s\<lparr>snake_length := le_word (load m ptr sizeof_int)\<rparr>;
          ptr = ptr + sizeof_int;
          s = s\<lparr>snake_dir := le_word (load m ptr sizeof_enum)\<rparr>;
          ptr = ptr + sizeof_enum;
          s = s\<lparr>food_x := le_word (load m ptr sizeof_int)\<rparr>;
          ptr = ptr + sizeof_int;
          s = s\<lparr>food_y := le_word (load m ptr sizeof_int)\<rparr>;
          ptr = ptr + sizeof_int;
          s = s\<lparr>item_type := le_word (load m ptr sizeof_enum)\<rparr>;
          ptr = ptr + sizeof_enum;
          s = s\<lparr>item_x := le_word (load m ptr sizeof_int)\<rparr>;
          ptr = ptr + sizeof_int;
          s = s\<lparr>item_y := le_word (load m ptr sizeof_int)\<rparr>;
          ptr = ptr + sizeof_int;
          s = s\<lparr>phase_timer := le_word (load m ptr sizeof_int)\<rparr>;
          ptr = ptr + sizeof_int;
          s = s\<lparr>speed_timer := le_word (load m ptr sizeof_int)\<rparr>;
          ptr = ptr + sizeof_int;
          s = s\<lparr>score := le_word (load m ptr sizeof_int)\<rparr>;
          ptr = ptr + sizeof_int;
          s = s\<lparr>highscore := le_word (load m ptr sizeof_int)\<rparr>;
          ptr = ptr + sizeof_int;
          s = s\<lparr>state := le_word (load m ptr sizeof_enum)\<rparr>;
          ptr = ptr + sizeof_enum;
          s = s\<lparr>move_counter := le_word (load m ptr sizeof_int)\<rparr>;
          ptr = ptr + sizeof_int;
          s = s\<lparr>frame_count := le_word (load m ptr sizeof_unsigned_long)\<rparr>
      in (True, s))"

subsection \<open>The C library\<close>

text \<open>
  \<open>rand_value L i\<close> is the value that the \<open>i\<close>-th call of \<^verbatim>\<open>rand()\<close> returns (a number from
  0 to \<^verbatim>\<open>RAND_MAX\<close>). \<^verbatim>\<open>RAND_MAX\<close> and the float arithmetic of the test in \<^verbatim>\<open>spawn_item\<close> are
  not part of the source: \<open>above_probability L r\<close> says whether
  \<^verbatim>\<open>((float)r / (float)RAND_MAX) > POWERUP_PROBABILITY\<close> holds for the value \<open>r\<close>.
\<close>

record libc =
  rand_value :: "nat \<Rightarrow> nat"
  above_probability :: "nat \<Rightarrow> bool"

definition rand :: "libc \<Rightarrow> game \<Rightarrow> nat \<times> game" where
  "rand L s = (rand_value L (rand_calls s), s\<lparr>rand_calls := Suc (rand_calls s)\<rparr>)"

subsection \<open>Free cells, food and items\<close>

text \<open>
  The loop \<^verbatim>\<open>for (i = 0; i < snake_length; i++)\<close> that looks for a segment on a cell. In
  \<open>random_free_cell\<close> the flag \<^verbatim>\<open>collides\<close> starts from the result of that loop, and each
  \<^verbatim>\<open>if (!collides && c) collides = true\<close> is the assignment \<open>collides = (collides \<or> c)\<close>.
\<close>

definition snake_at :: "game \<Rightarrow> cint \<Rightarrow> cint \<Rightarrow> bool" where
  "snake_at s x y =
     list_ex (\<lambda>i. snake_x s ! i = x \<and> snake_y s ! i = y) [0..<nat (sint (snake_length s))]"

partial_function (option) random_free_cell :: "libc \<Rightarrow> game \<Rightarrow> (cint \<times> cint \<times> game) option" where
  "random_free_cell L s =
    (let (r, s) = rand L s; x = r mod GRID_W;
         (r, s) = rand L s; y = r mod GRID_H;
         collides = snake_at s (of_nat x) (of_nat y);
         collides = (collides \<or> obstacle s (x, y) \<noteq> 0);
         collides = (collides \<or> item_type s \<noteq> ITEM_NONE \<and>
                        item_x s = of_nat x \<and> item_y s = of_nat y)
     in if \<not> collides then Some (of_nat x, of_nat y, s) else random_free_cell L s)"

definition spawn_food :: "libc \<Rightarrow> game \<Rightarrow> game option" where
  "spawn_food L s =
     do { (x, y, s) \<leftarrow> random_free_cell L s; Some (s\<lparr>food_x := x, food_y := y\<rparr>) }"

definition spawn_item :: "libc \<Rightarrow> game \<Rightarrow> game option" where
  "spawn_item L s =
    (if item_type s \<noteq> ITEM_NONE then Some s
     else
      let (r, s) = rand L s in
      if above_probability L r then Some s
      else
        let (r, s) = rand L s;
            s = s\<lparr>item_type := (if r mod 2 \<noteq> 0 then ITEM_PHASE else ITEM_SPEED)\<rparr>
        in do { (x, y, s) \<leftarrow> random_free_cell L s; Some (s\<lparr>item_x := x, item_y := y\<rparr>) })"

subsection \<open>Particles\<close>

text \<open>
  \<open>spawn_particles_loop L n i\<close> is the loop \<^verbatim>\<open>for (; i < MAX_PARTICLES; i++)\<close> with \<open>n\<close>
  iterations left. A free slot costs four calls of \<^verbatim>\<open>rand()\<close>: angle, speed, lifetime and
  the coin that ends the loop.
\<close>

fun spawn_particles_loop :: "libc \<Rightarrow> nat \<Rightarrow> nat \<Rightarrow> game \<Rightarrow> game" where
  "spawn_particles_loop L 0 i s = s"
| "spawn_particles_loop L (Suc n) i s =
    (if \<not> active (particles s ! i) then
       let (angle, s) = rand L s;
           (speed, s) = rand L s;
           (r, s) = rand L s;
           s = s\<lparr>particles := (particles s)[i := \<lparr>active = True, lifetime = 30 + of_nat (r mod 30)\<rparr>]\<rparr>;
           (r, s) = rand L s
       in if r mod 2 = 0 then s else spawn_particles_loop L n (Suc i) s
     else spawn_particles_loop L n (Suc i) s)"

definition spawn_particles :: "libc \<Rightarrow> game \<Rightarrow> game" where
  "spawn_particles L s = spawn_particles_loop L MAX_PARTICLES 0 s"

definition update_particle :: "particle_t \<Rightarrow> particle_t" where
  "update_particle p =
    (if active p then
       let p = p\<lparr>lifetime := lifetime p - 1\<rparr>
       in if lifetime p \<le>s 0 then p\<lparr>active := False\<rparr> else p
     else p)"

definition update_particles :: "game \<Rightarrow> game" where
  "update_particles s = s\<lparr>particles := map update_particle (particles s)\<rparr>"

subsection \<open>Obstacles\<close>

text \<open>The \<^verbatim>\<open>do ... while\<close> loop of \<^verbatim>\<open>spawn_obstacles\<close> that draws a cell until it is usable.\<close>

partial_function (option) pick_obstacle_cell :: "libc \<Rightarrow> game \<Rightarrow> (nat \<times> nat \<times> game) option" where
  "pick_obstacle_cell L s =
    (let (r, s) = rand L s; x = r mod GRID_W;
         (r, s) = rand L s; y = r mod GRID_H
     in if (snake_x s ! 0 = of_nat x \<and> snake_y s ! 0 = of_nat y) \<or>
           (food_x s = of_nat x \<and> food_y s = of_nat y) \<or>
           (item_type s \<noteq> ITEM_NONE \<and> item_x s = of_nat x \<and> item_y s = of_nat y) \<or>
           obstacle s (x, y) \<noteq> 0
        then pick_obstacle_cell L s
        else Some (x, y, s))"

fun place_obstacles :: "libc \<Rightarrow> nat \<Rightarrow> game \<Rightarrow> game option" where
  "place_obstacles L 0 s = Some s"
| "place_obstacles L (Suc n) s =
     do { (x, y, s) \<leftarrow> pick_obstacle_cell L s;
          place_obstacles L n
            (s\<lparr>obstacle := (obstacle s)((x, y) := 1), obstacle_count := obstacle_count s + 1\<rparr>) }"

definition spawn_obstacles :: "libc \<Rightarrow> game \<Rightarrow> game option" where
  "spawn_obstacles L s =
    (let s = s\<lparr>obstacle := fold (\<lambda>x ob. ob((x, 0) := 1, (x, GRID_H - 1) := 1))
                               [0..<GRID_W] (obstacle s)\<rparr>;
         s = s\<lparr>obstacle := fold (\<lambda>y ob. ob((0, y) := 1, (GRID_W - 1, y) := 1))
                               [0..<GRID_H] (obstacle s)\<rparr>;
         s = s\<lparr>obstacle_count := of_nat (2 * (GRID_W + GRID_H) - 4)\<rparr>;
         num_obstacles = GRID_W * GRID_H div 100
     in place_obstacles L num_obstacles s)"

definition check_obstacle_collision :: "game \<Rightarrow> cint \<Rightarrow> cint \<Rightarrow> bool" where
  "check_obstacle_collision s new_x new_y =
     (0 \<le>s new_x \<and> new_x <s of_nat GRID_W \<and> 0 \<le>s new_y \<and> new_y <s of_nat GRID_H \<and>
      obstacle s (nat (sint new_x), nat (sint new_y)) \<noteq> 0)"

subsection \<open>Reset\<close>

text \<open>The assignments of \<^verbatim>\<open>game_reset\<close>, and \<^verbatim>\<open>game_reset\<close> with its two calls.\<close>

definition reset_vars :: "game \<Rightarrow> game" where
  "reset_vars s =
    (let s = s\<lparr>snake_length := 3\<rparr>;
         s = s\<lparr>snake_x := (snake_x s)[0 := of_nat (GRID_W div 2)]\<rparr>;
         s = s\<lparr>snake_y := (snake_y s)[0 := of_nat (GRID_H div 2)]\<rparr>;
         s = s\<lparr>snake_x := (snake_x s)[1 := snake_x s ! 0 - 1]\<rparr>;
         s = s\<lparr>snake_y := (snake_y s)[1 := snake_y s ! 0]\<rparr>;
         s = s\<lparr>snake_x := (snake_x s)[2 := snake_x s ! 1 - 1]\<rparr>;
         s = s\<lparr>snake_y := (snake_y s)[2 := snake_y s ! 1]\<rparr>;
         s = s\<lparr>snake_dir := DIR_RIGHT\<rparr>;
         s = s\<lparr>pending_dir := DIR_RIGHT\<rparr>;
         s = s\<lparr>score := 0\<rparr>;
         s = s\<lparr>phase_timer := 0\<rparr>;
         s = s\<lparr>speed_timer := 0\<rparr>;
         s = s\<lparr>item_type := ITEM_NONE\<rparr>;
         s = s\<lparr>move_counter := BASE_MOVE_INTERVAL\<rparr>;
         s = s\<lparr>frame_count := 0\<rparr>;
         s = s\<lparr>particles := map (\<lambda>p. p\<lparr>active := False\<rparr>) (particles s)\<rparr>;
         s = s\<lparr>obstacle := (\<lambda>_. 0)\<rparr>;
         s = s\<lparr>obstacle_count := 0\<rparr>
     in s)"

definition game_reset :: "libc \<Rightarrow> game \<Rightarrow> game option" where
  "game_reset L s = do { s \<leftarrow> spawn_food L (reset_vars s); spawn_obstacles L s }"

subsection \<open>One step of the snake\<close>

text \<open>The \<^verbatim>\<open>switch (snake_dir)\<close>, which has no default branch.\<close>

definition step_head :: "direction_t \<Rightarrow> cint \<times> cint \<Rightarrow> cint \<times> cint" where
  "step_head d c =
    (let (new_x, new_y) = c in
     if d = DIR_UP then (new_x, new_y - 1)
     else if d = DIR_DOWN then (new_x, new_y + 1)
     else if d = DIR_LEFT then (new_x - 1, new_y)
     else if d = DIR_RIGHT then (new_x + 1, new_y)
     else (new_x, new_y))"

definition outside_grid :: "cint \<times> cint \<Rightarrow> bool" where
  "outside_grid c =
    (let (new_x, new_y) = c in
     new_x <s 0 \<or> of_nat GRID_W \<le>s new_x \<or> new_y <s 0 \<or> of_nat GRID_H \<le>s new_y)"

definition wrap_cell :: "cint \<times> cint \<Rightarrow> cint \<times> cint" where
  "wrap_cell c =
    (let (new_x, new_y) = c;
         new_x = (if new_x <s 0 then of_nat GRID_W - 1 else new_x);
         new_x = (if of_nat GRID_W \<le>s new_x then 0 else new_x);
         new_y = (if new_y <s 0 then of_nat GRID_H - 1 else new_y);
         new_y = (if of_nat GRID_H \<le>s new_y then 0 else new_y)
     in (new_x, new_y))"

text \<open>
  The cell one step from the head in the pending direction, and the cell the tick goes
  on with: the same cell, wrapped when the phase timer is positive.
\<close>

definition candidate :: "game \<Rightarrow> cint \<times> cint" where
  "candidate s = step_head (pending_dir s) (snake_x s ! 0, snake_y s ! 0)"

definition new_head :: "game \<Rightarrow> cint \<times> cint" where
  "new_head s = (if 0 <s phase_timer s then wrap_cell (candidate s) else candidate s)"

text \<open>The loop \<^verbatim>\<open>for (i = snake_length - 1; i > 0; i--) a[i] = a[i - 1]\<close>, from \<open>i\<close> down.\<close>

fun shift_body :: "nat \<Rightarrow> 'a list \<Rightarrow> 'a list" where
  "shift_body 0 xs = xs"
| "shift_body (Suc i) xs = shift_body i (xs[Suc i := xs ! i])"

text \<open>
  The blocks of the second half of \<^verbatim>\<open>update_snake\<close>: moving the body, growing by one
  segment, the food branch and the item branch.
\<close>

definition move_body :: "game \<Rightarrow> cint \<Rightarrow> cint \<Rightarrow> game" where
  "move_body s new_x new_y =
    (let n = nat (sint (snake_length s) - 1);
         s = s\<lparr>snake_x := shift_body n (snake_x s), snake_y := shift_body n (snake_y s)\<rparr>;
         s = s\<lparr>snake_x := (snake_x s)[0 := new_x]\<rparr>;
         s = s\<lparr>snake_y := (snake_y s)[0 := new_y]\<rparr>
     in s)"

definition grow_snake :: "game \<Rightarrow> game" where
  "grow_snake s =
    (if snake_length s <s of_nat MAX_SNAKE_LENGTH then
       let s = s\<lparr>snake_length := snake_length s + 1\<rparr>;
           n = nat (sint (snake_length s))
       in s\<lparr>snake_x := (snake_x s)[n - 1 := snake_x s ! (n - 2)],
            snake_y := (snake_y s)[n - 1 := snake_y s ! (n - 2)]\<rparr>
     else s)"

definition eat_food :: "libc \<Rightarrow> game \<Rightarrow> game option" where
  "eat_food L s =
    (let s = grow_snake s;
         s = s\<lparr>score := score s + 10\<rparr>;
         s = (if highscore s <s score s then s\<lparr>highscore := score s\<rparr> else s);
         s = spawn_particles L s
     in do { s \<leftarrow> spawn_food L s; spawn_item L s })"

definition take_item :: "libc \<Rightarrow> game \<Rightarrow> game" where
  "take_item L s =
    (let s = (if item_type s = ITEM_PHASE then s\<lparr>phase_timer := PHASE_DURATION\<rparr>
              else if item_type s = ITEM_SPEED then s\<lparr>speed_timer := SPEED_DURATION\<rparr>
              else s);
         s = spawn_particles L s
     in s\<lparr>item_type := ITEM_NONE\<rparr>)"

text \<open>The second half of \<^verbatim>\<open>update_snake\<close>, from "Move body" on, reached when no collision ended the tick.\<close>

definition commit_move :: "libc \<Rightarrow> game \<Rightarrow> cint \<Rightarrow> cint \<Rightarrow> game option" where
  "commit_move L s new_x new_y =
    (let s = move_body s new_x new_y
     in do {
       s \<leftarrow> (if new_x = food_x s \<and> new_y = food_y s then eat_food L s else Some s);
       Some (if item_type s \<noteq> ITEM_NONE \<and> new_x = item_x s \<and> new_y = item_y s
             then take_item L s else s) })"

definition update_snake :: "libc \<Rightarrow> game \<Rightarrow> game option" where
  "update_snake L s =
    (let s = s\<lparr>snake_dir := pending_dir s\<rparr>;
         (new_x, new_y) = step_head (snake_dir s) (snake_x s ! 0, snake_y s ! 0);
         wrap = 0 <s phase_timer s
     in
     if \<not> wrap \<and> outside_grid (new_x, new_y) then Some (s\<lparr>state := STATE_GAMEOVER\<rparr>)
     else
      let (new_x, new_y) = (if wrap then wrap_cell (new_x, new_y) else (new_x, new_y)) in
      if phase_timer s \<le>s 0 \<and> snake_at s new_x new_y then Some (s\<lparr>state := STATE_GAMEOVER\<rparr>)
      else if check_obstacle_collision s new_x new_y then Some (s\<lparr>state := STATE_GAMEOVER\<rparr>)
      else commit_move L s new_x new_y)"

subsection \<open>Input\<close>

text \<open>
  The six levels that \<^verbatim>\<open>input_state_cb\<close> reports in one frame; the source reads them only
  as truth values.
\<close>

record joypad =
  up :: bool
  down :: bool
  left :: bool
  right :: bool
  start :: bool
  select :: bool

text \<open>
  \<^verbatim>\<open>handle_input\<close> in its three blocks. The last one: turning, only in the play state.
\<close>

definition turn :: "joypad \<Rightarrow> game \<Rightarrow> game" where
  "turn b s =
    (if state s = STATE_PLAY then
       if up b \<and> snake_dir s \<noteq> DIR_DOWN \<and> pending_dir s \<noteq> DIR_DOWN
         then s\<lparr>pending_dir := DIR_UP\<rparr>
       else if down b \<and> snake_dir s \<noteq> DIR_UP \<and> pending_dir s \<noteq> DIR_UP
         then s\<lparr>pending_dir := DIR_DOWN\<rparr>
       else if left b \<and> snake_dir s \<noteq> DIR_RIGHT \<and> pending_dir s \<noteq> DIR_RIGHT
         then s\<lparr>pending_dir := DIR_LEFT\<rparr>
       else if right b \<and> snake_dir s \<noteq> DIR_LEFT \<and> pending_dir s \<noteq> DIR_LEFT
         then s\<lparr>pending_dir := DIR_RIGHT\<rparr>
       else s
     else s)"

text \<open>The Start block and the Select block, each with the update of its static.\<close>

definition press_start :: "libc \<Rightarrow> joypad \<Rightarrow> game \<Rightarrow> game option" where
  "press_start L b s =
    do {
      s \<leftarrow> (if start b \<and> \<not> prev_start s then
              if state s = STATE_TITLE then game_reset L (s\<lparr>state := STATE_PLAY\<rparr>)
              else if state s = STATE_PLAY then Some (s\<lparr>state := STATE_PAUSE\<rparr>)
              else if state s = STATE_PAUSE then Some (s\<lparr>state := STATE_PLAY\<rparr>)
              else if state s = STATE_GAMEOVER then game_reset L (s\<lparr>state := STATE_PLAY\<rparr>)
              else Some s
            else Some s);
      Some (s\<lparr>prev_start := start b\<rparr>)
    }"

definition press_select :: "joypad \<Rightarrow> game \<Rightarrow> game" where
  "press_select b s =
    (let s = (if select b \<and> \<not> prev_select s then
                if state s = STATE_TITLE then s\<lparr>highscore := 0\<rparr> else s
              else s)
     in s\<lparr>prev_select := select b\<rparr>)"

definition handle_input :: "libc \<Rightarrow> joypad \<Rightarrow> game \<Rightarrow> game option" where
  "handle_input L b s =
     do { s \<leftarrow> press_start L b s; Some (turn b (press_select b s)) }"

subsection \<open>Entry points\<close>

text \<open>
  Of \<^verbatim>\<open>retro_run\<close> the part that changes the game: drawing reads the state and writes only
  the frame buffer, and the video and audio callbacks receive buffers.
  \<^verbatim>\<open>BASE_MOVE_INTERVAL / 2\<close> divides two positive constants, where the unsigned \<open>div\<close> of
  words and the division of C agree. \<open>countdown\<close> is \<^verbatim>\<open>if (t > 0) t--\<close>.
\<close>

definition countdown :: "cint \<Rightarrow> cint" where
  "countdown t = (if 0 <s t then t - 1 else t)"

text \<open>The body of \<^verbatim>\<open>if (state == STATE_PLAY)\<close> in \<^verbatim>\<open>retro_run\<close>.\<close>

definition advance :: "libc \<Rightarrow> game \<Rightarrow> game option" where
  "advance L s =
    (let s = s\<lparr>phase_timer := countdown (phase_timer s)\<rparr>;
         s = s\<lparr>speed_timer := countdown (speed_timer s)\<rparr>;
         interval = BASE_MOVE_INTERVAL;
         interval = (if 0 <s speed_timer s then BASE_MOVE_INTERVAL div 2 else interval);
         s = s\<lparr>move_counter := move_counter s - 1\<rparr>
     in do {
       s \<leftarrow> (if move_counter s \<le>s 0 then
               do { s \<leftarrow> update_snake L s; Some (s\<lparr>move_counter := interval\<rparr>) }
             else Some s);
       Some (update_particles s) })"

definition retro_run :: "libc \<Rightarrow> joypad \<Rightarrow> game \<Rightarrow> game option" where
  "retro_run L b s =
    do {
      s \<leftarrow> handle_input L b s;
      s \<leftarrow> (if state s = STATE_PLAY then advance L s else Some s);
      Some (s\<lparr>frame_count := frame_count s + 1\<rparr>)
    }"

definition retro_init :: "libc \<Rightarrow> game \<Rightarrow> game option" where
  "retro_init L s = game_reset L (s\<lparr>state := STATE_TITLE\<rparr>)"

definition retro_reset :: "libc \<Rightarrow> game \<Rightarrow> game option" where
  "retro_reset L s = game_reset L s"

subsection \<open>Notions used in the statements\<close>

text \<open>
  In a well-formed game the three arrays have the sizes the C declarations give them
  (\<open>arrays_ok\<close>) and the snake length is an index range of the coordinate arrays. Then
  every array access of the operations above is in range.
\<close>

definition arrays_ok :: "game \<Rightarrow> bool" where
  "arrays_ok s =
     (length (snake_x s) = MAX_SNAKE_LENGTH \<and> length (snake_y s) = MAX_SNAKE_LENGTH \<and>
      length (particles s) = MAX_PARTICLES)"

definition state_ok :: "game \<Rightarrow> bool" where
  "state_ok s =
     (arrays_ok s \<and> 1 \<le>s snake_length s \<and> snake_length s \<le>s of_nat MAX_SNAKE_LENGTH)"

text \<open>
  The ring of border cells is occupied by obstacles; the head lies strictly inside the
  ring; two games differ at most in the obstacle grid, where the second has every
  obstacle of the first, in the obstacle count and in the count of \<^verbatim>\<open>rand()\<close> calls.
\<close>

definition border_walls :: "game \<Rightarrow> bool" where
  "border_walls s =
     (\<forall>x<GRID_W. \<forall>y<GRID_H. x = 0 \<or> x = GRID_W - 1 \<or> y = 0 \<or> y = GRID_H - 1 \<longrightarrow>
        obstacle s (x, y) \<noteq> 0)"

definition head_inside :: "game \<Rightarrow> bool" where
  "head_inside s =
     (1 \<le>s snake_x s ! 0 \<and> snake_x s ! 0 \<le>s of_nat GRID_W - 2 \<and>
      1 \<le>s snake_y s ! 0 \<and> snake_y s ! 0 \<le>s of_nat GRID_H - 2)"

text \<open>
  The invariant of play: a well-formed game whose border ring is occupied and whose head
  lies strictly inside the ring.
\<close>

definition core_inv :: "game \<Rightarrow> bool" where
  "core_inv s = (state_ok s \<and> border_walls s \<and> head_inside s)"

text \<open>
  The games that \<^verbatim>\<open>game_reset\<close> produces from a game with arrays of the declared sizes,
  and those that ticks, input handling and whole frames produce from them.
\<close>

inductive reachable :: "libc \<Rightarrow> game \<Rightarrow> bool" for L :: libc where
  reset: "arrays_ok s \<Longrightarrow> game_reset L s = Some s' \<Longrightarrow> reachable L s'"
| tick: "reachable L s \<Longrightarrow> update_snake L s = Some s' \<Longrightarrow> reachable L s'"
| input: "reachable L s \<Longrightarrow> handle_input L b s = Some s' \<Longrightarrow> reachable L s'"
| frame: "reachable L s \<Longrightarrow> retro_run L b s = Some s' \<Longrightarrow> reachable L s'"

definition obstacles_added :: "game \<Rightarrow> game \<Rightarrow> bool" where
  "obstacles_added s s' =
     (\<exists>ob oc n. s' = s\<lparr>obstacle := ob, obstacle_count := oc, rand_calls := n\<rparr> \<and>
        (\<forall>c. obstacle s c \<noteq> 0 \<longrightarrow> ob c \<noteq> 0))"

text \<open>
  What \<open>random_free_cell\<close> promises of a result \<open>(x, y, s')\<close> computed in state \<open>s\<close>: only the
  count of \<^verbatim>\<open>rand()\<close> calls has changed, the cell is on the grid, and none of the three
  tests of the loop body holds for it.
\<close>

definition cell_is_free :: "game \<Rightarrow> cint \<times> cint \<times> game \<Rightarrow> bool" where
  "cell_is_free s res = (case res of (x, y, s') \<Rightarrow>
     (\<exists>n. s' = s\<lparr>rand_calls := n\<rparr>) \<and>
     0 \<le>s x \<and> x <s of_nat GRID_W \<and> 0 \<le>s y \<and> y <s of_nat GRID_H \<and>
     \<not> snake_at s x y \<and> obstacle s (nat (sint x), nat (sint y)) = 0 \<and>
     \<not> (item_type s \<noteq> ITEM_NONE \<and> item_x s = x \<and> item_y s = y))"

text \<open>Two games that differ at most in the particle pool and the count of \<^verbatim>\<open>rand()\<close> calls.\<close>

definition effects_only :: "game \<Rightarrow> game \<Rightarrow> bool" where
  "effects_only s s' = (\<exists>n ps. s' = s\<lparr>particles := ps, rand_calls := n\<rparr> \<and>
      length ps = length (particles s))"

text \<open>
  The three collisions that end a tick: the wall and the snake's own body when the phase
  timer is not positive, an obstacle always.
\<close>

definition fatal_collision :: "game \<Rightarrow> bool" where
  "fatal_collision s =
    (let (new_x, new_y) = new_head s in
     (phase_timer s \<le>s 0 \<and> outside_grid (candidate s)) \<or>
     (phase_timer s \<le>s 0 \<and> snake_at s new_x new_y) \<or>
     check_obstacle_collision s new_x new_y)"

definition reverse_dir :: "direction_t \<Rightarrow> direction_t \<Rightarrow> bool" where
  "reverse_dir a b =
     (a = DIR_UP \<and> b = DIR_DOWN \<or> a = DIR_DOWN \<and> b = DIR_UP \<or>
      a = DIR_LEFT \<and> b = DIR_RIGHT \<or> a = DIR_RIGHT \<and> b = DIR_LEFT)"

text \<open>
  A cell that a placement may use in state \<open>s\<close>: on the grid, under no segment of the
  snake, not an obstacle, and not the cell of the item when an item type is set.
\<close>

definition free_cell :: "game \<Rightarrow> cint \<Rightarrow> cint \<Rightarrow> bool" where
  "free_cell s x y =
     (\<not> outside_grid (x, y) \<and> \<not> snake_at s x y \<and> \<not> check_obstacle_collision s x y \<and>
      \<not> (item_type s \<noteq> ITEM_NONE \<and> item_x s = x \<and> item_y s = y))"

text \<open>
  The frames on which the Select block of \<^verbatim>\<open>handle_input\<close> clears the high score: Select
  is newly pressed and the Start block leaves the title state, which it does unless Start
  is newly pressed too.
\<close>

definition clears_highscore :: "joypad \<Rightarrow> game \<Rightarrow> bool" where
  "clears_highscore b s =
     (select b \<and> \<not> prev_select s \<and> state s = STATE_TITLE \<and> \<not> (start b \<and> \<not> prev_start s))"

text \<open>
  \<open>observed L s m\<close>: the game \<open>s\<close> is reached from the power-on state by \<^verbatim>\<open>retro_init\<close>
  followed by calls of \<^verbatim>\<open>retro_reset\<close> and \<^verbatim>\<open>retro_run\<close>, and \<open>m\<close> is the largest score
  seen after a call since the last frame that cleared the high score.
\<close>

inductive observed :: "libc \<Rightarrow> game \<Rightarrow> int \<Rightarrow> bool" for L :: libc where
  init: "retro_init L power_on = Some s \<Longrightarrow> observed L s (sint (score s))"
| reset: "observed L s m \<Longrightarrow> retro_reset L s = Some s' \<Longrightarrow> observed L s' (max m (sint (score s')))"
| run: "observed L s m \<Longrightarrow> retro_run L b s = Some s' \<Longrightarrow> \<not> clears_highscore b s \<Longrightarrow>
         observed L s' (max m (sint (score s')))"
| clear: "observed L s m \<Longrightarrow> retro_run L b s = Some s' \<Longrightarrow> clears_highscore b s \<Longrightarrow>
         observed L s' (sint (score s'))"


subsection \<open>Sample inputs\<close>

text \<open>
  A library whose \<^verbatim>\<open>rand()\<close> returns 0, 2, 4, \<dots> and whose probability test lets values below
  100 pass, and a game with a snake of three segments on the cell \<open>(0, 0)\<close>.
\<close>

definition sample_libc :: libc where
  "sample_libc = \<lparr>rand_value = (\<lambda>i. 2 * i), above_probability = (\<lambda>r. 100 \<le> r)\<rparr>"

definition sample_game :: game where
  "sample_game = power_on\<lparr>snake_length := 3\<rparr>"

text \<open>
  What a tick that is not cut short leaves alone, and what it does to the score: nothing,
  or ten more with the high score raised to the new score when that is larger.
\<close>

definition tick_frame :: "game \<Rightarrow> game \<Rightarrow> bool" where
  "tick_frame s s' =
     (pending_dir s' = pending_dir s \<and> snake_dir s' = snake_dir s \<and> obstacle s' = obstacle s \<and>
      state s' = state s \<and> prev_start s' = prev_start s \<and> prev_select s' = prev_select s \<and>
      move_counter s' = move_counter s \<and> frame_count s' = frame_count s)"

definition score_step :: "game \<Rightarrow> game \<Rightarrow> bool" where
  "score_step s s' =
     (score s' = score s \<and> highscore s' = highscore s \<or>
      score s' = score s + 10 \<and>
      highscore s' = (if highscore s <s score s + 10 then score s + 10 else highscore s))"



text \<open>A frame with only Left held, a frame with no button held, and the sample game in play.\<close>

definition left_only :: joypad where
  "left_only = \<lparr>up = False, down = False, left = True, right = False, start = False, select = False\<rparr>"

definition playing :: game where
  "playing = sample_game\<lparr>state := STATE_PLAY\<rparr>"

definition no_buttons :: joypad where
  "no_buttons = \<lparr>up = False, down = False, left = False, right = False, start = False, select = False\<rparr>"

text \<open>
  A library whose \<^verbatim>\<open>rand()\<close> returns 1, 2, 3, \<dots>, and the game that \<^verbatim>\<open>game_reset\<close> makes
  of the power-on state with it.
\<close>

definition counting_libc :: libc where
  "counting_libc = \<lparr>rand_value = Suc, above_probability = (\<lambda>r. 100 \<le> r)\<rparr>"

definition first_game :: game where
  "first_game = the (game_reset counting_libc power_on)"


text \<open>Caller memory filled with zero bytes.\<close>

definition blank_memory :: memory where
  "blank_memory = (\<lambda>_. 0)"




section \<open>Properties\<close>

subsection \<open>Object representations\<close>

lemma length_le_bytes: "length (le_bytes n w) = n"
  by (induction n arbitrary: w) auto

lemma le_word_le_bytes: "le_word (le_bytes n w) = take_bit (8 * n) w"
proof (induction n arbitrary: w)
  case 0
  show ?case by simp
next
  case (Suc n)
  have "ucast (ucast w :: byte) OR push_bit 8 (take_bit (8 * n) (drop_bit 8 w))
        = take_bit (8 * Suc n) w"
    by (rule bit_word_eqI) (auto simp add: bit_simps)
  then show ?case by (simp add: Suc)
qed

lemma le_bytes_nth: "k < n \<Longrightarrow> le_bytes n w ! k = ucast (drop_bit (8 * k) w)"
proof (induction n arbitrary: w k)
  case 0
  then show ?case by simp
next
  case (Suc n)
  then show ?case by (cases k) (simp_all add: drop_bit_drop_bit ac_simps)
qed

lemma le_word_int_rep: "le_word (int_rep w) = w"
  by (simp add: int_rep_def sizeof_int_def le_word_le_bytes take_bit_word_eq_self)

lemma le_word_ulong_rep: "le_word (ulong_rep w) = w"
  by (simp add: ulong_rep_def sizeof_unsigned_long_def le_word_le_bytes take_bit_word_eq_self)

lemma length_int_rep: "length (int_rep w) = 4"
  by (simp add: int_rep_def sizeof_int_def length_le_bytes)

lemma length_ulong_rep: "length (ulong_rep w) = 8"
  by (simp add: ulong_rep_def sizeof_unsigned_long_def length_le_bytes)

lemma length_array_rep: "length (array_rep xs) = 4 * length xs"
  by (induction xs) (simp_all add: array_rep_def length_int_rep)

lemma array_of_rep_array_rep: "length xs = n \<Longrightarrow> array_of_rep n (array_rep xs) = xs"
proof (induction xs arbitrary: n)
  case Nil
  then show ?case by (simp add: array_of_rep_def array_rep_def)
next
  case (Cons x xs)
  then obtain k where n: "n = Suc k" and k: "length xs = k" by auto
  from Cons.IH [OF k] show ?case
    by (simp add: n array_of_rep_def array_rep_def length_int_rep sizeof_int_def le_word_int_rep)
qed

lemma length_array_of_rep: "length (array_of_rep n bs) = n"
  by (induction n arbitrary: bs) (simp_all add: array_of_rep_def)

lemma load_store_same: "length bs = n \<Longrightarrow> load (store m d bs n) d n = bs"
  by (auto simp add: load_def store_def list_eq_iff_nth_eq)

lemma load_store_other:
  "a + k \<le> d \<or> d + n \<le> a \<Longrightarrow> load (store m d bs n) a k = load m a k"
  by (auto simp add: load_def store_def)

lemma load_const: "load (\<lambda>_. c) a n = replicate n c"
  by (simp add: load_def map_replicate_const)

lemmas sizes = sizeof_int_def sizeof_enum_def sizeof_unsigned_long_def
  MAX_SNAKE_LENGTH_def GRID_W_def GRID_H_def

lemma retro_serialize_size_value: "retro_serialize_size = 9632"
  by (simp add: retro_serialize_size_def sizes)

subsection \<open>Signed arithmetic on small values\<close>

lemma sint_of_nat_small: "n < 2 ^ 31 \<Longrightarrow> sint (of_nat n :: cint) = int n"
  by (simp add: signed_of_nat signed_take_bit_int_eq_self)

lemma unat_of_nat_small: "n < 2 ^ 31 \<Longrightarrow> unat (of_nat n :: cint) = n"
  by (simp add: unat_of_nat take_bit_nat_eq_self)

lemma sint_inc: "sint (x :: cint) < 2 ^ 31 - 1 \<Longrightarrow> sint (x + 1) = sint x + 1"
  using sint_ge [of x] by (simp add: sint_word_ariths signed_take_bit_int_eq_self)

lemma sint_dec: "- (2 ^ 31) < sint (x :: cint) \<Longrightarrow> sint (x - 1) = sint x - 1"
  using sint_lt [of x] by (simp add: sint_word_ariths signed_take_bit_int_eq_self)

subsection \<open>Free cells, food, items and particles\<close>

lemma snake_at_rand_calls [simp]: "snake_at (s\<lparr>rand_calls := n\<rparr>) = snake_at s"
  by (simp add: snake_at_def fun_eq_iff)

lemma cell_is_free_rand_calls: "cell_is_free (s\<lparr>rand_calls := k\<rparr>) res \<Longrightarrow> cell_is_free s res"
  by (auto simp add: cell_is_free_def)

lemma sint_of_nat_mod:
  "0 < k \<Longrightarrow> k < 2 ^ 31 \<Longrightarrow> sint (of_nat (r mod k) :: cint) = int (r mod k)"
proof -
  assume k: "0 < k" "k < 2 ^ 31"
  then have "r mod k < k" by simp
  with k have "r mod k < 2 ^ 31" by linarith
  then show ?thesis by (rule sint_of_nat_small)
qed

lemma random_free_cell_sound:
  assumes "random_free_cell L s = Some res"
  shows "cell_is_free s res"
proof (rule random_free_cell.raw_induct [where P = "\<lambda>L s res. cell_is_free s res", OF _ assms],
    goal_cases)
  case (1 rfc L s res)
  let ?x = "rand_value L (rand_calls s) mod GRID_W"
  let ?y = "rand_value L (Suc (rand_calls s)) mod GRID_H"
  let ?s2 = "s\<lparr>rand_calls := Suc (Suc (rand_calls s))\<rparr>"
  show ?case
  proof (cases "snake_at s (of_nat ?x) (of_nat ?y) \<or> obstacle s (?x, ?y) \<noteq> 0 \<or>
       (item_type s \<noteq> ITEM_NONE \<and> item_x s = of_nat ?x \<and> item_y s = of_nat ?y)")
    case True
    with 1(2) have "rfc L ?s2 = Some res"
      by (simp add: rand_def Let_def split: if_splits)
    then have "cell_is_free ?s2 res" by (rule 1(1))
    then show ?thesis by (rule cell_is_free_rand_calls)
  next
    case False
    define X :: cint where "X = of_nat ?x"
    define Y :: cint where "Y = of_nat ?y"
    from False 1(2) have res: "res = (X, Y, ?s2)"
      by (simp add: rand_def Let_def X_def Y_def split: if_splits)
    from False have free: "\<not> snake_at s X Y" "obstacle s (?x, ?y) = 0"
      "\<not> (item_type s \<noteq> ITEM_NONE \<and> item_x s = X \<and> item_y s = Y)"
      by (simp_all add: X_def Y_def)
    have sx: "sint X = int ?x" and sy: "sint Y = int ?y"
      unfolding X_def Y_def by (simp_all add: sint_of_nat_mod GRID_W_def GRID_H_def)
    have bx: "?x < GRID_W" "?y < GRID_H"
      by (simp_all add: GRID_W_def GRID_H_def)
    have w: "sint (of_nat GRID_W :: cint) = int GRID_W" "sint (of_nat GRID_H :: cint) = int GRID_H"
      by (simp_all add: GRID_W_def GRID_H_def)
    have rng: "0 \<le>s X" "X <s of_nat GRID_W" "0 \<le>s Y" "Y <s of_nat GRID_H"
      using bx by (simp_all only: word_sle_eq word_sless_alt sx sy w sint_0 of_nat_0_le_iff of_nat_less_iff)
    have idx: "nat (sint X) = ?x" "nat (sint Y) = ?y"
      by (simp_all only: sx sy nat_int)
    have "\<exists>n. ?s2 = s\<lparr>rand_calls := n\<rparr>" by blast
    with free rng idx show ?thesis
      unfolding cell_is_free_def res by (simp only: prod.case simp_thms)
  qed
qed


lemma spawn_food_effect:
  assumes "spawn_food L s = Some s'"
  shows "\<exists>n. s' = s\<lparr>food_x := food_x s', food_y := food_y s', rand_calls := n\<rparr> \<and>
           cell_is_free s (food_x s', food_y s', s\<lparr>rand_calls := n\<rparr>)"
proof -
  from assms obtain x y s1 where r: "random_free_cell L s = Some (x, y, s1)"
    and s': "s' = s1\<lparr>food_x := x, food_y := y\<rparr>"
    by (auto simp add: spawn_food_def split: Option.bind_splits)
  from random_free_cell_sound [OF r] obtain n where n: "s1 = s\<lparr>rand_calls := n\<rparr>"
    unfolding cell_is_free_def by auto
  have a: "s' = s\<lparr>food_x := food_x s', food_y := food_y s', rand_calls := n\<rparr>"
    by (simp add: s' n)
  have b: "cell_is_free s (food_x s', food_y s', s\<lparr>rand_calls := n\<rparr>)"
    using random_free_cell_sound [OF r] by (simp add: s' n)
  from a b show ?thesis by blast
qed

lemma effects_only_refl: "effects_only s s"
  unfolding effects_only_def
  by (rule exI [of _ "rand_calls s"], rule exI [of _ "particles s"]) simp

lemma effects_only_trans: "effects_only s t \<Longrightarrow> effects_only t u \<Longrightarrow> effects_only s u"
  unfolding effects_only_def by fastforce

lemma effects_only_step:
  "effects_only s (s\<lparr>particles := (particles s)[i := p], rand_calls := n\<rparr>)"
  unfolding effects_only_def
  by (rule exI [of _ n], rule exI [of _ "(particles s)[i := p]"]) simp

lemma spawn_particles_loop_effect: "effects_only s (spawn_particles_loop L k i s)"
proof (induction k arbitrary: i s)
  case 0
  show ?case by (simp add: effects_only_refl)
next
  case (Suc k)
  let ?s4 = "s\<lparr>particles := (particles s)[i := \<lparr>active = True,
                lifetime = 30 + of_nat (rand_value L (Suc (Suc (rand_calls s))) mod 30)\<rparr>],
           rand_calls := Suc (Suc (Suc (Suc (rand_calls s))))\<rparr>"
  have step: "effects_only s ?s4" by (rule effects_only_step)
  have "spawn_particles_loop L (Suc k) i s = spawn_particles_loop L k (Suc i) s \<or>
        spawn_particles_loop L (Suc k) i s = ?s4 \<or>
        spawn_particles_loop L (Suc k) i s = spawn_particles_loop L k (Suc i) ?s4"
    by (simp add: rand_def Let_def)
  then show ?case
    using Suc [of s "Suc i"] Suc [of ?s4 "Suc i"] step effects_only_trans [of s ?s4]
    by metis
qed

lemma spawn_particles_effect: "effects_only s (spawn_particles L s)"
  by (simp add: spawn_particles_def spawn_particles_loop_effect)

lemma spawn_item_effect:
  assumes "spawn_item L s = Some s'"
  shows "\<exists>n. s' = s\<lparr>item_type := item_type s', item_x := item_x s', item_y := item_y s',
                  rand_calls := n\<rparr>"
proof (cases "item_type s \<noteq> ITEM_NONE")
  case True
  with assms have "s' = s" by (simp add: spawn_item_def)
  then have "s' = s\<lparr>item_type := item_type s', item_x := item_x s', item_y := item_y s',
                  rand_calls := rand_calls s\<rparr>" by simp
  then show ?thesis ..
next
  case none: False
  show ?thesis
  proof (cases "above_probability L (rand_value L (rand_calls s))")
    case True
    with none assms have "s' = s\<lparr>rand_calls := Suc (rand_calls s)\<rparr>"
      by (simp add: spawn_item_def rand_def)
    then have "s' = s\<lparr>item_type := item_type s', item_x := item_x s', item_y := item_y s',
                  rand_calls := Suc (rand_calls s)\<rparr>" by simp
    then show ?thesis ..
  next
    case False
    let ?s2 = "\<lambda>t. s\<lparr>rand_calls := Suc (Suc (rand_calls s)), item_type := t\<rparr>"
    let ?rest = "\<lambda>t. do { (x, y, s) \<leftarrow> random_free_cell L (?s2 t);
                            Some (s\<lparr>item_x := x, item_y := y\<rparr>) }"
    obtain t where "?rest t = Some s'"
    proof (cases "rand_value L (Suc (rand_calls s)) mod 2 \<noteq> 0")
      case True
      with none False assms have "?rest ITEM_PHASE = Some s'"
        by (simp add: spawn_item_def rand_def Let_def)
      then show ?thesis by (rule that)
    next
      case even: False
      with none False assms have "?rest ITEM_SPEED = Some s'"
        by (simp add: spawn_item_def rand_def Let_def)
      then show ?thesis by (rule that)
    qed
    then obtain x y s3 where r: "random_free_cell L (?s2 t) = Some (x, y, s3)"
      and s': "s' = s3\<lparr>item_x := x, item_y := y\<rparr>"
      by (auto split: Option.bind_splits)
    from random_free_cell_sound [OF r] obtain n where "s3 = (?s2 t)\<lparr>rand_calls := n\<rparr>"
      unfolding cell_is_free_def by auto
    with s' have "s' = s\<lparr>item_type := item_type s', item_x := item_x s', item_y := item_y s',
                  rand_calls := n\<rparr>" by simp
    then show ?thesis ..
  qed
qed


subsection \<open>The tick, by cases\<close>

lemma snake_at_cong:
  "snake_x s' = snake_x s \<Longrightarrow> snake_y s' = snake_y s \<Longrightarrow> snake_length s' = snake_length s \<Longrightarrow>
     snake_at s' = snake_at s"
  by (simp add: snake_at_def fun_eq_iff)

lemma check_obstacle_collision_cong:
  "obstacle s' = obstacle s \<Longrightarrow> check_obstacle_collision s' = check_obstacle_collision s"
  by (simp add: check_obstacle_collision_def fun_eq_iff)

lemma update_snake_cases:
  "update_snake L s =
    (if fatal_collision s then Some (s\<lparr>snake_dir := pending_dir s, state := STATE_GAMEOVER\<rparr>)
     else commit_move L (s\<lparr>snake_dir := pending_dir s\<rparr>) (fst (new_head s)) (snd (new_head s)))"
proof -
  let ?s = "s\<lparr>snake_dir := pending_dir s\<rparr>"
  have a: "snake_at ?s = snake_at s" by (rule snake_at_cong) simp_all
  have b: "check_obstacle_collision ?s = check_obstacle_collision s"
    by (rule check_obstacle_collision_cong) simp
  obtain cx cy where c: "candidate s = (cx, cy)" by (cases "candidate s")
  obtain wx wy where w: "wrap_cell (cx, cy) = (wx, wy)" by (cases "wrap_cell (cx, cy)")
  have c': "step_head (pending_dir s) (snake_x s ! 0, snake_y s ! 0) = (cx, cy)"
    using c by (simp add: candidate_def)
  show ?thesis
  proof (cases "0 <s phase_timer s")
    case True
    then have n: "\<not> phase_timer s \<le>s 0" by (simp add: signed.not_le)
    from True n show ?thesis
      by (simp add: update_snake_def fatal_collision_def new_head_def Let_def c c' w a b)
  next
    case False
    then have n: "phase_timer s \<le>s 0" by (simp add: signed.not_less)
    from False n show ?thesis
      by (simp add: update_snake_def fatal_collision_def new_head_def Let_def c c' a b)
  qed
qed

subsection \<open>Enumerations and turning\<close>

lemma dirs_distinct:
  "DIR_UP \<noteq> DIR_DOWN" "DIR_UP \<noteq> DIR_LEFT" "DIR_UP \<noteq> DIR_RIGHT" "DIR_DOWN \<noteq> DIR_LEFT"
  "DIR_DOWN \<noteq> DIR_RIGHT" "DIR_LEFT \<noteq> DIR_RIGHT"
  "DIR_DOWN \<noteq> DIR_UP" "DIR_LEFT \<noteq> DIR_UP" "DIR_RIGHT \<noteq> DIR_UP" "DIR_LEFT \<noteq> DIR_DOWN"
  "DIR_RIGHT \<noteq> DIR_DOWN" "DIR_RIGHT \<noteq> DIR_LEFT"
  by (simp_all add: DIR_UP_def DIR_DOWN_def DIR_LEFT_def DIR_RIGHT_def)

lemma states_distinct:
  "STATE_TITLE \<noteq> STATE_PLAY" "STATE_TITLE \<noteq> STATE_PAUSE" "STATE_TITLE \<noteq> STATE_GAMEOVER"
  "STATE_PLAY \<noteq> STATE_PAUSE" "STATE_PLAY \<noteq> STATE_GAMEOVER" "STATE_PAUSE \<noteq> STATE_GAMEOVER"
  "STATE_PLAY \<noteq> STATE_TITLE" "STATE_PAUSE \<noteq> STATE_TITLE" "STATE_GAMEOVER \<noteq> STATE_TITLE"
  "STATE_PAUSE \<noteq> STATE_PLAY" "STATE_GAMEOVER \<noteq> STATE_PLAY" "STATE_GAMEOVER \<noteq> STATE_PAUSE"
  by (simp_all add: STATE_TITLE_def STATE_PLAY_def STATE_PAUSE_def STATE_GAMEOVER_def)

lemma items_distinct:
  "ITEM_NONE \<noteq> ITEM_PHASE" "ITEM_NONE \<noteq> ITEM_SPEED" "ITEM_PHASE \<noteq> ITEM_SPEED"
  "ITEM_PHASE \<noteq> ITEM_NONE" "ITEM_SPEED \<noteq> ITEM_NONE" "ITEM_SPEED \<noteq> ITEM_PHASE"
  by (simp_all add: ITEM_NONE_def ITEM_PHASE_def ITEM_SPEED_def)

lemma reverse_dir_irrefl: "\<not> reverse_dir d d"
  using dirs_distinct by (auto simp add: reverse_dir_def)

lemma turn_pending:
  "pending_dir (turn b s) = pending_dir s \<or>
   (\<not> reverse_dir (pending_dir (turn b s)) (snake_dir s) \<and>
    \<not> reverse_dir (pending_dir (turn b s)) (pending_dir s))"
  using dirs_distinct by (auto simp add: turn_def reverse_dir_def)

lemma turn_frame:
  "turn b s = s\<lparr>pending_dir := pending_dir (turn b s)\<rparr>"
  by (simp add: turn_def)

lemma turn_invariant:
  "\<not> reverse_dir (pending_dir s) (snake_dir s) \<Longrightarrow>
     \<not> reverse_dir (pending_dir (turn b s)) (snake_dir (turn b s))"
  using dirs_distinct by (auto simp add: turn_def reverse_dir_def)

subsection \<open>Obstacles\<close>

lemma obstacles_added_refl: "obstacles_added s s"
  unfolding obstacles_added_def
  by (rule exI [of _ "obstacle s"], rule exI [of _ "obstacle_count s"],
      rule exI [of _ "rand_calls s"]) simp

lemma obstacles_added_trans:
  assumes "obstacles_added s t" and "obstacles_added t u"
  shows "obstacles_added s u"
proof -
  from assms(1) obtain ob oc n where t: "t = s\<lparr>obstacle := ob, obstacle_count := oc, rand_calls := n\<rparr>"
    and m: "\<forall>c. obstacle s c \<noteq> 0 \<longrightarrow> ob c \<noteq> 0"
    unfolding obstacles_added_def by blast
  from assms(2) obtain ob' oc' n' where u: "u = t\<lparr>obstacle := ob', obstacle_count := oc', rand_calls := n'\<rparr>"
    and m': "\<forall>c. obstacle t c \<noteq> 0 \<longrightarrow> ob' c \<noteq> 0"
    unfolding obstacles_added_def by blast
  have "u = s\<lparr>obstacle := ob', obstacle_count := oc', rand_calls := n'\<rparr>"
    by (simp add: u t)
  moreover from m m' have "\<forall>c. obstacle s c \<noteq> 0 \<longrightarrow> ob' c \<noteq> 0"
    by (simp add: t)
  ultimately show ?thesis unfolding obstacles_added_def by blast
qed

lemma obstacles_added_step:
  "obstacles_added s (s\<lparr>rand_calls := n, obstacle := (obstacle s)(c := 1), obstacle_count := k\<rparr>)"
  unfolding obstacles_added_def
  by (rule exI [of _ "(obstacle s)(c := 1)"], rule exI [of _ k], rule exI [of _ n]) simp

lemma obstacles_added_border:
  assumes "obstacles_added s t" and "border_walls s"
  shows "border_walls t"
proof -
  from assms(1) obtain ob oc n where t: "t = s\<lparr>obstacle := ob, obstacle_count := oc, rand_calls := n\<rparr>"
    and m: "\<forall>c. obstacle s c \<noteq> 0 \<longrightarrow> ob c \<noteq> 0"
    unfolding obstacles_added_def by blast
  have "obstacle t = ob" by (simp add: t)
  with m assms(2) show ?thesis unfolding border_walls_def by simp
qed

lemma pick_obstacle_cell_sound:
  assumes "pick_obstacle_cell L s = Some res"
  shows "\<exists>x y n. res = (x, y, s\<lparr>rand_calls := n\<rparr>)"
proof (rule pick_obstacle_cell.raw_induct
    [where P = "\<lambda>L s res. \<exists>x y n. res = (x, y, s\<lparr>rand_calls := n\<rparr>)", OF _ assms], goal_cases)
  case (1 pick L s res)
  let ?s2 = "s\<lparr>rand_calls := Suc (Suc (rand_calls s))\<rparr>"
  from 1(2) have "pick L ?s2 = Some res \<or>
      res = (rand_value L (rand_calls s) mod GRID_W, rand_value L (Suc (rand_calls s)) mod GRID_H, ?s2)"
    by (simp add: rand_def Let_def split: if_splits)
  then show ?case
  proof
    assume "pick L ?s2 = Some res"
    from 1(1) [OF this] show ?thesis by simp
  next
    assume "res = (rand_value L (rand_calls s) mod GRID_W, rand_value L (Suc (rand_calls s)) mod GRID_H, ?s2)"
    then show ?thesis by blast
  qed
qed

lemma place_obstacles_effect:
  "place_obstacles L k s = Some s' \<Longrightarrow> obstacles_added s s'"
proof (induction k arbitrary: s)
  case 0
  then show ?case by (simp add: obstacles_added_refl)
next
  case (Suc k)
  from Suc.prems obtain res where p: "pick_obstacle_cell L s = Some res"
    by (cases "pick_obstacle_cell L s") simp_all
  from pick_obstacle_cell_sound [OF p] obtain x y n where res: "res = (x, y, s\<lparr>rand_calls := n\<rparr>)"
    by blast
  let ?t = "s\<lparr>rand_calls := n, obstacle := (obstacle s)((x, y) := 1),
             obstacle_count := obstacle_count s + 1\<rparr>"
  from Suc.prems p res have "place_obstacles L k ?t = Some s'" by simp
  then have "obstacles_added ?t s'" by (rule Suc.IH)
  with obstacles_added_step [where s = s and n = n and c = "(x, y)" and k = "obstacle_count s + 1"]
  show ?case
    by (rule obstacles_added_trans)
qed

lemma border_columns:
  "fold (\<lambda>x ob. ob((x, a) := 1, (x, b) := (1 :: cint))) [0..<n] ob c =
     (if fst c < n \<and> (snd c = a \<or> snd c = b) then 1 else ob c)"
proof (induction n)
  case 0
  show ?case by simp
next
  case (Suc n)
  obtain x y where c: "c = (x, y)" by (cases c)
  show ?case
    unfolding c using Suc [unfolded c]
    by (simp add: less_Suc_eq) blast
qed

lemma border_rows:
  "fold (\<lambda>y ob. ob((a, y) := 1, (b, y) := (1 :: cint))) [0..<n] ob c =
     (if snd c < n \<and> (fst c = a \<or> fst c = b) then 1 else ob c)"
proof (induction n)
  case 0
  show ?case by simp
next
  case (Suc n)
  obtain x y where c: "c = (x, y)" by (cases c)
  show ?case
    unfolding c using Suc [unfolded c]
    by (simp add: less_Suc_eq) blast
qed

lemma spawn_obstacles_effect:
  assumes "spawn_obstacles L s = Some s'"
  shows "obstacles_added s s' \<and> border_walls s'"
proof -
  define ob where "ob = fold (\<lambda>y ob. ob((0, y) := 1, (GRID_W - 1, y) := 1)) [0..<GRID_H]
              (fold (\<lambda>x ob. ob((x, 0) := 1, (x, GRID_H - 1) := 1)) [0..<GRID_W] (obstacle s))"
  let ?t = "s\<lparr>obstacle := ob, obstacle_count := of_nat (2 * (GRID_W + GRID_H) - 4)\<rparr>"
  from assms have p: "place_obstacles L (GRID_W * GRID_H div 100) ?t = Some s'"
    unfolding ob_def spawn_obstacles_def Let_def by simp
  have ob: "ob c = (if snd c < GRID_H \<and> (fst c = 0 \<or> fst c = GRID_W - 1) then 1
                    else if fst c < GRID_W \<and> (snd c = 0 \<or> snd c = GRID_H - 1) then 1
                    else obstacle s c)" for c
    unfolding ob_def by (simp only: border_rows border_columns)
  have mono: "\<forall>c. obstacle s c \<noteq> 0 \<longrightarrow> ob c \<noteq> 0"
    by (simp add: ob)
  have st: "obstacles_added s ?t"
    unfolding obstacles_added_def
    by (rule exI [of _ ob], rule exI [of _ "of_nat (2 * (GRID_W + GRID_H) - 4)"],
        rule exI [of _ "rand_calls s"]) (simp add: mono)
  have "\<forall>x<GRID_W. \<forall>y<GRID_H. x = 0 \<or> x = GRID_W - 1 \<or> y = 0 \<or> y = GRID_H - 1 \<longrightarrow> ob (x, y) \<noteq> 0"
    by (simp add: ob)
  then have bt: "border_walls ?t"
    unfolding border_walls_def by simp
  from place_obstacles_effect [OF p] have a: "obstacles_added ?t s'" .
  from obstacles_added_trans [OF st a] obstacles_added_border [OF a bt] show ?thesis by simp
qed

subsection \<open>Reset\<close>

lemma sint_max_len: "sint (of_nat MAX_SNAKE_LENGTH :: cint) = 1200"
  by (simp add: MAX_SNAKE_LENGTH_def GRID_W_def GRID_H_def)

lemma state_ok_sint:
  "state_ok s \<longleftrightarrow> arrays_ok s \<and> 1 \<le> sint (snake_length s) \<and> sint (snake_length s) \<le> 1200"
  by (simp add: state_ok_def word_sle_eq sint_max_len)

lemma arrays_ok_cong:
  "length (snake_x s') = length (snake_x s) \<Longrightarrow> length (snake_y s') = length (snake_y s) \<Longrightarrow>
   length (particles s') = length (particles s) \<Longrightarrow> arrays_ok s' = arrays_ok s"
  by (simp add: arrays_ok_def)

lemma state_ok_cong:
  "snake_x s' = snake_x s \<Longrightarrow> snake_y s' = snake_y s \<Longrightarrow> snake_length s' = snake_length s \<Longrightarrow>
   length (particles s') = length (particles s) \<Longrightarrow> state_ok s' = state_ok s"
  by (simp add: state_ok_def arrays_ok_def)

lemma reset_vars_fields:
  "snake_length (reset_vars s) = 3" "snake_dir (reset_vars s) = DIR_RIGHT"
  "pending_dir (reset_vars s) = DIR_RIGHT" "score (reset_vars s) = 0"
  "highscore (reset_vars s) = highscore s" "state (reset_vars s) = state s"
  "phase_timer (reset_vars s) = 0" "speed_timer (reset_vars s) = 0"
  "item_type (reset_vars s) = ITEM_NONE" "move_counter (reset_vars s) = BASE_MOVE_INTERVAL"
  "obstacle (reset_vars s) = (\<lambda>_. 0)" "prev_start (reset_vars s) = prev_start s"
  "prev_select (reset_vars s) = prev_select s" "rand_calls (reset_vars s) = rand_calls s"
  "length (snake_x (reset_vars s)) = length (snake_x s)"
  "length (snake_y (reset_vars s)) = length (snake_y s)"
  "length (particles (reset_vars s)) = length (particles s)"
  by (simp_all add: reset_vars_def Let_def)

lemma reset_vars_head:
  assumes "arrays_ok s"
  shows "snake_x (reset_vars s) ! 0 = 20" and "snake_y (reset_vars s) ! 0 = 15"
  using assms
  by (simp_all add: reset_vars_def Let_def arrays_ok_def MAX_SNAKE_LENGTH_def GRID_W_def GRID_H_def)

lemma game_reset_effect:
  assumes "game_reset L s = Some s'"
  shows "border_walls s' \<and>
    (\<exists>fx fy ob oc n. s' = (reset_vars s)\<lparr>food_x := fx, food_y := fy, obstacle := ob,
        obstacle_count := oc, rand_calls := n\<rparr>)"
proof -
  from assms obtain s1 where f: "spawn_food L (reset_vars s) = Some s1"
    and o: "spawn_obstacles L s1 = Some s'"
    by (cases "spawn_food L (reset_vars s)") (simp_all add: game_reset_def)
  from spawn_food_effect [OF f] obtain n where
    s1: "s1 = (reset_vars s)\<lparr>food_x := food_x s1, food_y := food_y s1, rand_calls := n\<rparr>"
    by blast
  from spawn_obstacles_effect [OF o] have a: "obstacles_added s1 s'" and b: "border_walls s'"
    by simp_all
  from a obtain ob oc n' where s': "s' = s1\<lparr>obstacle := ob, obstacle_count := oc, rand_calls := n'\<rparr>"
    unfolding obstacles_added_def by blast
  have "s' = (reset_vars s)\<lparr>food_x := food_x s1, food_y := food_y s1, obstacle := ob,
        obstacle_count := oc, rand_calls := n'\<rparr>"
    by (subst s', subst s1) simp
  with b show ?thesis by blast
qed

lemma game_reset_fields:
  assumes "game_reset L s = Some s'"
  shows "snake_x s' = snake_x (reset_vars s)" "snake_y s' = snake_y (reset_vars s)"
    "snake_length s' = 3" "snake_dir s' = DIR_RIGHT" "pending_dir s' = DIR_RIGHT"
    "score s' = 0" "highscore s' = highscore s" "state s' = state s"
    "phase_timer s' = 0" "speed_timer s' = 0" "item_type s' = ITEM_NONE"
    "move_counter s' = BASE_MOVE_INTERVAL" "prev_start s' = prev_start s"
    "prev_select s' = prev_select s" "particles s' = particles (reset_vars s)"
proof -
  from game_reset_effect [OF assms] obtain fx fy ob oc n where
    "s' = (reset_vars s)\<lparr>food_x := fx, food_y := fy, obstacle := ob,
        obstacle_count := oc, rand_calls := n\<rparr>" by blast
  then show "snake_x s' = snake_x (reset_vars s)" "snake_y s' = snake_y (reset_vars s)"
    "snake_length s' = 3" "snake_dir s' = DIR_RIGHT" "pending_dir s' = DIR_RIGHT"
    "score s' = 0" "highscore s' = highscore s" "state s' = state s"
    "phase_timer s' = 0" "speed_timer s' = 0" "item_type s' = ITEM_NONE"
    "move_counter s' = BASE_MOVE_INTERVAL" "prev_start s' = prev_start s"
    "prev_select s' = prev_select s" "particles s' = particles (reset_vars s)"
    by (simp_all add: reset_vars_fields)
qed

lemma game_reset_inv:
  assumes "arrays_ok s" and "game_reset L s = Some s'"
  shows "state_ok s' \<and> border_walls s' \<and> head_inside s'"
proof -
  note f = game_reset_fields [OF assms(2)]
  have "arrays_ok s'"
    using assms(1) by (simp add: arrays_ok_def f reset_vars_fields)
  then have "state_ok s'"
    by (simp add: state_ok_sint f)
  moreover have "head_inside s'"
    by (simp add: head_inside_def f reset_vars_head [OF assms(1)] word_sle_eq GRID_W_def GRID_H_def)
  moreover from game_reset_effect [OF assms(2)] have "border_walls s'" by simp
  ultimately show ?thesis by simp
qed

subsection \<open>The blocks of a tick\<close>

lemma length_shift_body: "length (shift_body n xs) = length xs"
  by (induction n arbitrary: xs) simp_all

lemma move_body_eq:
  "move_body s x y =
     s\<lparr>snake_x := (shift_body (nat (sint (snake_length s) - 1)) (snake_x s))[0 := x],
       snake_y := (shift_body (nat (sint (snake_length s) - 1)) (snake_y s))[0 := y]\<rparr>"
  by (simp add: move_body_def Let_def)

lemma move_body_ok:
  assumes "state_ok s"
  shows "state_ok (move_body s x y)" and "snake_x (move_body s x y) ! 0 = x"
    and "snake_y (move_body s x y) ! 0 = y"
  using assms
  by (simp_all add: move_body_eq state_ok_def arrays_ok_def length_shift_body
      MAX_SNAKE_LENGTH_def GRID_W_def GRID_H_def)

lemma grow_snake_eq:
  "grow_snake s = s\<lparr>snake_length := snake_length (grow_snake s),
      snake_x := snake_x (grow_snake s), snake_y := snake_y (grow_snake s)\<rparr>"
  by (simp add: grow_snake_def Let_def)


lemma grow_snake_ok:
  assumes "state_ok s"
  shows "state_ok (grow_snake s) \<and> snake_x (grow_snake s) ! 0 = snake_x s ! 0 \<and>
     snake_y (grow_snake s) ! 0 = snake_y s ! 0"
proof (cases "snake_length s <s of_nat MAX_SNAKE_LENGTH")
  case False
  then have "grow_snake s = s" by (simp add: grow_snake_def)
  with assms show ?thesis by simp
next
  case True
  from assms have a: "arrays_ok s" and lo: "1 \<le> sint (snake_length s)"
    by (simp_all add: state_ok_sint)
  from True have lt: "sint (snake_length s) < 1200"
    by (simp add: word_sless_alt sint_max_len)
  then have inc: "sint (snake_length s + 1) = sint (snake_length s) + 1"
    by (intro sint_inc) simp
  define n where "n = nat (sint (snake_length s + 1))"
  from inc lo have n: "2 \<le> n" by (simp add: n_def)
  from True have g: "grow_snake s = s\<lparr>snake_length := snake_length s + 1,
      snake_x := (snake_x s)[n - 1 := snake_x s ! (n - 2)],
      snake_y := (snake_y s)[n - 1 := snake_y s ! (n - 2)]\<rparr>"
    by (simp add: grow_snake_def Let_def n_def)
  from a have "arrays_ok (grow_snake s)"
    by (simp add: g arrays_ok_def)
  with inc lo lt have ok: "state_ok (grow_snake s)"
    by (simp add: state_ok_sint g)
  from n have "n - 1 \<noteq> 0" by simp
  then have "snake_x (grow_snake s) ! 0 = snake_x s ! 0"
    "snake_y (grow_snake s) ! 0 = snake_y s ! 0"
    by (simp_all add: g)
  with ok show ?thesis by simp
qed

lemma head_is_segment:
  assumes "state_ok s"
  shows "snake_at s (snake_x s ! 0) (snake_y s ! 0)"
proof -
  from assms have "0 < nat (sint (snake_length s))" by (simp add: state_ok_sint)
  then have "0 \<in> set [0..<nat (sint (snake_length s))]" by simp
  then show ?thesis unfolding snake_at_def list_ex_iff by blast
qed

lemma take_item_effect:
  "\<exists>pt st ps n. take_item L s = s\<lparr>phase_timer := pt, speed_timer := st, particles := ps,
       rand_calls := n, item_type := ITEM_NONE\<rparr> \<and> length ps = length (particles s)"
proof -
  define s1 where "s1 = (if item_type s = ITEM_PHASE then s\<lparr>phase_timer := PHASE_DURATION\<rparr>
              else if item_type s = ITEM_SPEED then s\<lparr>speed_timer := SPEED_DURATION\<rparr>
              else s)"
  have t: "take_item L s = (spawn_particles L s1)\<lparr>item_type := ITEM_NONE\<rparr>"
    by (simp add: take_item_def Let_def s1_def)
  have s1: "s1 = s\<lparr>phase_timer := phase_timer s1, speed_timer := speed_timer s1\<rparr>"
    by (simp add: s1_def)
  have p1: "particles s1 = particles s" by (simp add: s1_def)
  from spawn_particles_effect [of s1 L] obtain n ps where
    sp: "spawn_particles L s1 = s1\<lparr>particles := ps, rand_calls := n\<rparr>"
    and len: "length ps = length (particles s1)"
    unfolding effects_only_def by blast
  have "take_item L s = s\<lparr>phase_timer := phase_timer s1, speed_timer := speed_timer s1,
       particles := ps, rand_calls := n, item_type := ITEM_NONE\<rparr>"
    unfolding t sp by (subst s1) simp
  with len p1 show ?thesis by auto
qed

lemma eat_food_effect:
  assumes "eat_food L s = Some s'"
  shows "\<exists>ps n it ix iy. s' = (grow_snake s)\<lparr>score := score s + 10,
      highscore := (if highscore s <s score s + 10 then score s + 10 else highscore s),
      particles := ps, rand_calls := n, food_x := food_x s', food_y := food_y s',
      item_type := it, item_x := ix, item_y := iy\<rparr> \<and>
      length ps = length (particles s) \<and> \<not> snake_at (grow_snake s) (food_x s') (food_y s')"
proof -
  define g where "g = grow_snake s"
  have gf: "score g = score s" "highscore g = highscore s" "particles g = particles s"
    unfolding g_def by (simp_all add: grow_snake_def Let_def)
  define s3 where "s3 = g\<lparr>score := score s + 10,
      highscore := (if highscore s <s score s + 10 then score s + 10 else highscore s)\<rparr>"
  have same: "g\<lparr>score := score s + 10, highscore := highscore s\<rparr> = g\<lparr>score := score s + 10\<rparr>"
    by (simp add: gf(2) [symmetric])
  have "eat_food L s = do { t \<leftarrow> spawn_food L (spawn_particles L s3); spawn_item L t }"
    by (simp add: eat_food_def Let_def s3_def g_def [symmetric] gf same)
  with assms obtain s5 where f: "spawn_food L (spawn_particles L s3) = Some s5"
    and i: "spawn_item L s5 = Some s'"
    by (cases "spawn_food L (spawn_particles L s3)") simp_all
  from spawn_particles_effect [of s3 L] obtain n ps where
    s4: "spawn_particles L s3 = s3\<lparr>particles := ps, rand_calls := n\<rparr>"
    and len: "length ps = length (particles s3)"
    unfolding effects_only_def by blast
  from spawn_food_effect [OF f] obtain n' where
    s5: "s5 = (spawn_particles L s3)\<lparr>food_x := food_x s5, food_y := food_y s5, rand_calls := n'\<rparr>"
    and free: "cell_is_free (spawn_particles L s3)
        (food_x s5, food_y s5, (spawn_particles L s3)\<lparr>rand_calls := n'\<rparr>)"
    by blast
  from spawn_item_effect [OF i] obtain n'' where
    s': "s' = s5\<lparr>item_type := item_type s', item_x := item_x s', item_y := item_y s',
                  rand_calls := n''\<rparr>"
    by blast
  have fx: "food_x s' = food_x s5" "food_y s' = food_y s5"
    by (subst s', simp)+
  have "snake_x (spawn_particles L s3) = snake_x g" "snake_y (spawn_particles L s3) = snake_y g"
    "snake_length (spawn_particles L s3) = snake_length g"
    by (subst s4, simp add: s3_def)+
  then have "snake_at (spawn_particles L s3) = snake_at g"
    by (rule snake_at_cong)
  with free have nf: "\<not> snake_at g (food_x s') (food_y s')"
    unfolding cell_is_free_def fx by simp
  have "s' = g\<lparr>score := score s + 10,
      highscore := (if highscore s <s score s + 10 then score s + 10 else highscore s),
      particles := ps, rand_calls := n'', food_x := food_x s', food_y := food_y s',
      item_type := item_type s', item_x := item_x s', item_y := item_y s'\<rparr>"
    unfolding fx by (subst s', subst s5, subst s4) (simp add: s3_def)
  moreover from len have "length ps = length (particles s)" by (simp add: s3_def gf)
  ultimately show ?thesis using nf unfolding g_def by blast
qed

lemma commit_move_cases:
  assumes "commit_move L s x y = Some s'"
  shows "(\<not> (x = food_x s \<and> y = food_y s) \<and>
          (s' = move_body s x y \<or> s' = take_item L (move_body s x y))) \<or>
         (x = food_x s \<and> y = food_y s \<and>
          (\<exists>e. eat_food L (move_body s x y) = Some e \<and> (s' = e \<or> s' = take_item L e)))"
proof -
  have f: "food_x (move_body s x y) = food_x s" "food_y (move_body s x y) = food_y s"
    by (simp_all add: move_body_eq)
  show ?thesis
  proof (cases "x = food_x s \<and> y = food_y s")
    case False
    with assms f show ?thesis
      by (auto simp add: commit_move_def Let_def split: if_splits)
  next
    case True
    with assms f obtain e where "eat_food L (move_body s x y) = Some e"
      and "s' = (if item_type e \<noteq> ITEM_NONE \<and> x = item_x e \<and> y = item_y e
                 then take_item L e else e)"
      by (cases "eat_food L (move_body s x y)") (simp_all add: commit_move_def Let_def)
    with True show ?thesis by auto
  qed
qed

lemma grow_snake_fields:
  "pending_dir (grow_snake s) = pending_dir s" "snake_dir (grow_snake s) = snake_dir s"
  "obstacle (grow_snake s) = obstacle s" "state (grow_snake s) = state s"
  "prev_start (grow_snake s) = prev_start s" "prev_select (grow_snake s) = prev_select s"
  "move_counter (grow_snake s) = move_counter s" "frame_count (grow_snake s) = frame_count s"
  "particles (grow_snake s) = particles s" "score (grow_snake s) = score s"
  "highscore (grow_snake s) = highscore s" "food_x (grow_snake s) = food_x s"
  "food_y (grow_snake s) = food_y s"
  by (simp_all add: grow_snake_def Let_def)

lemma tick_frame_refl: "tick_frame s s"
  by (simp add: tick_frame_def)

lemma tick_frame_trans: "tick_frame s t \<Longrightarrow> tick_frame t u \<Longrightarrow> tick_frame s u"
  by (simp add: tick_frame_def)

lemma score_step_refl: "score_step s s"
  by (simp add: score_step_def)

lemma move_body_frame:
  "tick_frame s (move_body s x y)" "score (move_body s x y) = score s"
  "highscore (move_body s x y) = highscore s" "snake_length (move_body s x y) = snake_length s"
  "food_x (move_body s x y) = food_x s" "food_y (move_body s x y) = food_y s"
  by (simp_all add: tick_frame_def move_body_eq)

lemma take_item_frame:
  "tick_frame s (take_item L s)" "score (take_item L s) = score s"
  "highscore (take_item L s) = highscore s"
  "snake_x (take_item L s) = snake_x s" "snake_y (take_item L s) = snake_y s"
  "snake_length (take_item L s) = snake_length s"
  "food_x (take_item L s) = food_x s" "food_y (take_item L s) = food_y s"
  "length (particles (take_item L s)) = length (particles s)"
proof -
  from take_item_effect [of L s] obtain pt st ps n where
    t: "take_item L s = s\<lparr>phase_timer := pt, speed_timer := st, particles := ps,
       rand_calls := n, item_type := ITEM_NONE\<rparr>" and len: "length ps = length (particles s)"
    by blast
  show "tick_frame s (take_item L s)" "score (take_item L s) = score s"
    "highscore (take_item L s) = highscore s"
    "snake_x (take_item L s) = snake_x s" "snake_y (take_item L s) = snake_y s"
    "snake_length (take_item L s) = snake_length s"
    "food_x (take_item L s) = food_x s" "food_y (take_item L s) = food_y s"
    "length (particles (take_item L s)) = length (particles s)"
    by (simp_all add: t len tick_frame_def)
qed

lemma take_item_ok: "state_ok (take_item L s) = state_ok s"
  by (rule state_ok_cong) (simp_all add: take_item_frame)

lemma eat_food_frame:
  assumes "eat_food L s = Some e"
  shows "tick_frame s e"
    and "snake_x e = snake_x (grow_snake s)" and "snake_y e = snake_y (grow_snake s)"
    and "snake_length e = snake_length (grow_snake s)"
    and "length (particles e) = length (particles s)"
    and "score e = score s + 10"
    and "highscore e = (if highscore s <s score s + 10 then score s + 10 else highscore s)"
    and "\<not> snake_at (grow_snake s) (food_x e) (food_y e)"
proof -
  from eat_food_effect [OF assms] obtain ps n it ix iy where
    e: "e = (grow_snake s)\<lparr>score := score s + 10,
      highscore := (if highscore s <s score s + 10 then score s + 10 else highscore s),
      particles := ps, rand_calls := n, food_x := food_x e, food_y := food_y e,
      item_type := it, item_x := ix, item_y := iy\<rparr>"
    and len: "length ps = length (particles s)"
    and nf: "\<not> snake_at (grow_snake s) (food_x e) (food_y e)"
    by blast
  show "snake_x e = snake_x (grow_snake s)" "snake_y e = snake_y (grow_snake s)"
    "snake_length e = snake_length (grow_snake s)"
    "length (particles e) = length (particles s)"
    by (subst e, simp add: len grow_snake_fields)+
  show "tick_frame s e"
    unfolding tick_frame_def by (subst e, simp add: grow_snake_fields)+
  show "score e = score s + 10"
    by (subst e) simp
  show "highscore e = (if highscore s <s score s + 10 then score s + 10 else highscore s)"
    by (subst e) simp
  from nf show "\<not> snake_at (grow_snake s) (food_x e) (food_y e)" .
qed

lemma eat_food_ok:
  assumes "state_ok s" and "eat_food L s = Some e"
  shows "state_ok e" and "snake_x e ! 0 = snake_x s ! 0" and "snake_y e ! 0 = snake_y s ! 0"
    and "(food_x e, food_y e) \<noteq> (snake_x s ! 0, snake_y s ! 0)"
proof -
  note f = eat_food_frame [OF assms(2)]
  note g = grow_snake_ok [OF assms(1)]
  have "length (particles e) = length (particles (grow_snake s))"
    by (simp add: f grow_snake_fields)
  with f(2,3,4) have "state_ok e = state_ok (grow_snake s)"
    by (rule state_ok_cong)
  with g show "state_ok e" by simp
  from g show "snake_x e ! 0 = snake_x s ! 0" "snake_y e ! 0 = snake_y s ! 0"
    by (simp_all add: f)
  from g have "state_ok (grow_snake s)" by simp
  from head_is_segment [OF this] g
  have "snake_at (grow_snake s) (snake_x s ! 0) (snake_y s ! 0)" by simp
  with f(8) show "(food_x e, food_y e) \<noteq> (snake_x s ! 0, snake_y s ! 0)" by auto
qed

lemma commit_move_frame:
  assumes "commit_move L s x y = Some s'"
  shows "tick_frame s s'" and "score_step s s'"
proof -
  let ?m = "move_body s x y"
  from commit_move_cases [OF assms] consider
    "s' = ?m" | "s' = take_item L ?m"
    | e where "eat_food L ?m = Some e" "s' = e"
    | e where "eat_food L ?m = Some e" "s' = take_item L e"
    by blast
  then have "tick_frame s s' \<and> score_step s s'"
  proof cases
    case 1
    then show ?thesis by (simp add: move_body_frame score_step_def)
  next
    case 2
    with tick_frame_trans [OF move_body_frame(1) take_item_frame(1)] show ?thesis
      by (simp add: move_body_frame take_item_frame score_step_def)
  next
    case 3
    from eat_food_frame [OF 3(1)] tick_frame_trans [OF move_body_frame(1)] 3(2) show ?thesis
      by (simp add: move_body_frame score_step_def)
  next
    case 4
    from eat_food_frame [OF 4(1)] have "tick_frame ?m e" "score e = score s + 10"
      "highscore e = (if highscore s <s score s + 10 then score s + 10 else highscore s)"
      by (simp_all add: move_body_frame)
    with tick_frame_trans [OF move_body_frame(1) tick_frame_trans [OF _ take_item_frame(1)]] 4(2)
    show ?thesis
      by (simp add: take_item_frame score_step_def)
  qed
  then show "tick_frame s s'" "score_step s s'" by simp_all
qed

lemma commit_move_ok:
  assumes "state_ok s" and "commit_move L s x y = Some s'"
  shows "state_ok s'" and "snake_x s' ! 0 = x" and "snake_y s' ! 0 = y"
proof -
  let ?m = "move_body s x y"
  note m = move_body_ok [OF assms(1), of x y]
  from commit_move_cases [OF assms(2)] consider
    "s' = ?m" | "s' = take_item L ?m"
    | e where "eat_food L ?m = Some e" "s' = e"
    | e where "eat_food L ?m = Some e" "s' = take_item L e"
    by blast
  then have "state_ok s' \<and> snake_x s' ! 0 = x \<and> snake_y s' ! 0 = y"
  proof cases
    case 1
    with m show ?thesis by simp
  next
    case 2
    with m show ?thesis by (simp add: take_item_ok take_item_frame)
  next
    case 3
    with eat_food_ok [OF m(1) 3(1)] m show ?thesis by simp
  next
    case 4
    with eat_food_ok [OF m(1) 4(1)] m show ?thesis by (simp add: take_item_ok take_item_frame)
  qed
  then show "state_ok s'" "snake_x s' ! 0 = x" "snake_y s' ! 0 = y" by simp_all
qed


lemma update_snake_frame:
  assumes "update_snake L s = Some s'"
  shows "snake_dir s' = pending_dir s \<and> pending_dir s' = pending_dir s \<and>
    obstacle s' = obstacle s \<and> prev_start s' = prev_start s \<and>
    prev_select s' = prev_select s \<and> move_counter s' = move_counter s \<and>
    frame_count s' = frame_count s \<and>
    (state s' = state s \<or> state s' = STATE_GAMEOVER) \<and> score_step s s'"
proof (cases "fatal_collision s")
  case True
  with assms have "s' = s\<lparr>snake_dir := pending_dir s, state := STATE_GAMEOVER\<rparr>"
    by (simp add: update_snake_cases)
  then show ?thesis by (simp add: score_step_def)
next
  case False
  let ?t = "s\<lparr>snake_dir := pending_dir s\<rparr>"
  from False assms have "commit_move L ?t (fst (new_head s)) (snd (new_head s)) = Some s'"
    by (simp add: update_snake_cases)
  from commit_move_frame [OF this] show ?thesis
    by (simp add: tick_frame_def score_step_def cong: if_cong)
qed

subsection \<open>C5: a fatal collision ends the game and changes nothing else\<close>

text \<open>
  C5. When the cell the tick is about to enter triggers a fatal collision (it is outside
  the grid and the phase timer is not positive; or a segment of the snake lies on it and
  the phase timer is not positive; or it is an obstacle cell, whatever the phase timer),
  \<open>update_snake\<close> returns the game it was given with \<open>snake_dir\<close> set to the pending
  direction and \<open>state\<close> set to \<open>STATE_GAMEOVER\<close>: arrays, length, score, high score, food,
  item, timers and every other variable are as before.
\<close>

theorem fatal_collision_only_ends_game:
  "fatal_collision s \<Longrightarrow>
     update_snake L s = Some (s\<lparr>snake_dir := pending_dir s, state := STATE_GAMEOVER\<rparr>)"
  by (simp add: update_snake_cases)

theorem fatal_collision_only_ends_game_witness:
  "fatal_collision (sample_game\<lparr>pending_dir := DIR_LEFT\<rparr>) \<and>
   update_snake sample_libc (sample_game\<lparr>pending_dir := DIR_LEFT\<rparr>) =
     Some (sample_game\<lparr>pending_dir := DIR_LEFT, snake_dir := DIR_LEFT,
             state := STATE_GAMEOVER\<rparr>)"
proof -
  have f: "fatal_collision (sample_game\<lparr>pending_dir := DIR_LEFT\<rparr>)"
    by (simp add: fatal_collision_def new_head_def candidate_def step_head_def outside_grid_def
        sample_game_def power_on_def dirs_distinct MAX_SNAKE_LENGTH_def GRID_W_def GRID_H_def word_sless_alt
        word_sle_eq)
  from fatal_collision_only_ends_game [OF f, of sample_libc] f show ?thesis
    by (simp add: sample_game_def power_on_def)
qed

subsection \<open>C6: random free cells\<close>

lemma cell_is_free_free_cell:
  "cell_is_free s (x, y, s') \<Longrightarrow> free_cell s x y"
  unfolding cell_is_free_def free_cell_def outside_grid_def check_obstacle_collision_def
  by (simp add: signed.not_less signed.not_le)

lemma spawn_item_free:
  assumes "spawn_item L s = Some s'" and "item_type s = ITEM_NONE" and "item_type s' \<noteq> ITEM_NONE"
  shows "free_cell (s\<lparr>item_type := item_type s'\<rparr>) (item_x s') (item_y s')"
proof -
  have a: "\<not> above_probability L (rand_value L (rand_calls s))"
  proof
    assume "above_probability L (rand_value L (rand_calls s))"
    with assms(1,2) have "s' = s\<lparr>rand_calls := Suc (rand_calls s)\<rparr>"
      by (simp add: spawn_item_def rand_def)
    with assms(2,3) show False by simp
  qed
  let ?s2 = "\<lambda>t. s\<lparr>rand_calls := Suc (Suc (rand_calls s)), item_type := t\<rparr>"
  let ?rest = "\<lambda>t. do { (x, y, s) \<leftarrow> random_free_cell L (?s2 t);
                          Some (s\<lparr>item_x := x, item_y := y\<rparr>) }"
  obtain t where "?rest t = Some s'"
  proof (cases "rand_value L (Suc (rand_calls s)) mod 2 \<noteq> 0")
    case True
    with a assms(1,2) have "?rest ITEM_PHASE = Some s'"
      by (simp add: spawn_item_def rand_def Let_def)
    then show ?thesis by (rule that)
  next
    case False
    with a assms(1,2) have "?rest ITEM_SPEED = Some s'"
      by (simp add: spawn_item_def rand_def Let_def)
    then show ?thesis by (rule that)
  qed
  then obtain x y s3 where r: "random_free_cell L (?s2 t) = Some (x, y, s3)"
    and s': "s' = s3\<lparr>item_x := x, item_y := y\<rparr>"
    by (auto split: Option.bind_splits)
  from random_free_cell_sound [OF r] have c: "cell_is_free (?s2 t) (x, y, s3)" .
  then obtain n where s3: "s3 = (?s2 t)\<lparr>rand_calls := n\<rparr>"
    unfolding cell_is_free_def by auto
  have t: "item_type s' = t" and xy: "item_x s' = x" "item_y s' = y"
    by (simp_all add: s' s3)
  have "cell_is_free (s\<lparr>item_type := t\<rparr>) (x, y, s3)"
  proof (rule cell_is_free_rand_calls [where k = "Suc (Suc (rand_calls s))"])
    have eq: "(s\<lparr>item_type := t\<rparr>)\<lparr>rand_calls := Suc (Suc (rand_calls s))\<rparr> = ?s2 t" by simp
    show "cell_is_free ((s\<lparr>item_type := t\<rparr>)\<lparr>rand_calls := Suc (Suc (rand_calls s))\<rparr>) (x, y, s3)"
      by (subst eq) (rule c)
  qed
  then show ?thesis unfolding t xy by (rule cell_is_free_free_cell)
qed

text \<open>
  C6. Whenever \<open>random_free_cell\<close> returns a cell, in whatever state and for whatever values
  of \<^verbatim>\<open>rand()\<close>, the cell is on the grid, no segment of the snake lies on it, it is not an
  obstacle and it is not the cell of the item if an item type is set. This holds for the
  food cell that \<open>spawn_food\<close> stores and for the item cell that \<open>spawn_item\<close> stores; the
  state in which \<open>spawn_item\<close> draws the cell has the new item type set already.
\<close>

theorem random_free_cell_is_free:
  "(random_free_cell L s = Some (x, y, s') \<longrightarrow> free_cell s x y) \<and>
   (spawn_food L s = Some t \<longrightarrow> free_cell s (food_x t) (food_y t)) \<and>
   (spawn_item L s = Some u \<longrightarrow> item_type s = ITEM_NONE \<longrightarrow> item_type u \<noteq> ITEM_NONE \<longrightarrow>
      free_cell (s\<lparr>item_type := item_type u\<rparr>) (item_x u) (item_y u))"
proof (intro conjI impI)
  assume "random_free_cell L s = Some (x, y, s')"
  then show "free_cell s x y"
    by (rule random_free_cell_sound [THEN cell_is_free_free_cell])
next
  assume "spawn_food L s = Some t"
  from spawn_food_effect [OF this] show "free_cell s (food_x t) (food_y t)"
    by (blast intro: cell_is_free_free_cell)
next
  assume "spawn_item L s = Some u" "item_type s = ITEM_NONE" "item_type u \<noteq> ITEM_NONE"
  then show "free_cell (s\<lparr>item_type := item_type u\<rparr>) (item_x u) (item_y u)"
    by (rule spawn_item_free)
qed

lemma random_free_cell_sample:
  "random_free_cell sample_libc sample_game =
     Some (0, 2, sample_game\<lparr>rand_calls := 2\<rparr>)"
  apply (subst random_free_cell.simps)
  apply (simp add: rand_def sample_libc_def Let_def sample_game_def power_on_def snake_at_def GRID_W_def GRID_H_def
      MAX_SNAKE_LENGTH_def ITEM_NONE_def upt_rec)
  done


lemma random_free_cell_sample2:
  "random_free_cell sample_libc (sample_game\<lparr>rand_calls := Suc (Suc 0), item_type := ITEM_SPEED\<rparr>) =
     Some (4, 6, sample_game\<lparr>rand_calls := 4, item_type := ITEM_SPEED\<rparr>)"
  apply (subst random_free_cell.simps)
  apply (simp add: rand_def sample_libc_def Let_def sample_game_def power_on_def snake_at_def
      GRID_W_def GRID_H_def MAX_SNAKE_LENGTH_def upt_rec)
  done

lemma spawn_food_sample:
  "spawn_food sample_libc sample_game = Some (sample_game\<lparr>rand_calls := 2, food_x := 0, food_y := 2\<rparr>)"
  by (simp add: spawn_food_def random_free_cell_sample)

lemma spawn_item_sample:
  "spawn_item sample_libc sample_game =
     Some (sample_game\<lparr>rand_calls := 4, item_type := ITEM_SPEED, item_x := 4, item_y := 6\<rparr>)"
proof -
  have g: "\<not> above_probability sample_libc (rand_value sample_libc 0)"
    and r: "rand_value sample_libc (Suc 0) mod 2 = 0"
    by (simp_all add: sample_libc_def)
  have rc: "rand_calls sample_game = 0" and it: "item_type sample_game = ITEM_NONE"
    by (simp_all add: sample_game_def power_on_def)
  have "spawn_item sample_libc sample_game =
      do { (x, y, s) \<leftarrow> random_free_cell sample_libc
                          (sample_game\<lparr>rand_calls := Suc (Suc 0), item_type := ITEM_SPEED\<rparr>);
           Some (s\<lparr>item_x := x, item_y := y\<rparr>) }"
    by (simp add: spawn_item_def rand_def Let_def g r rc it)
  also have "\<dots> = Some (sample_game\<lparr>rand_calls := 4, item_type := ITEM_SPEED, item_x := 4, item_y := 6\<rparr>)"
    by (simp add: random_free_cell_sample2)
  finally show ?thesis .
qed

theorem random_free_cell_is_free_witness:
  "random_free_cell sample_libc sample_game = Some (0, 2, sample_game\<lparr>rand_calls := 2\<rparr>) \<and>
   free_cell sample_game 0 2 \<and>
   spawn_food sample_libc sample_game =
     Some (sample_game\<lparr>rand_calls := 2, food_x := 0, food_y := 2\<rparr>) \<and>
   spawn_item sample_libc sample_game =
     Some (sample_game\<lparr>rand_calls := 4, item_type := ITEM_SPEED, item_x := 4, item_y := 6\<rparr>) \<and>
   item_type sample_game = ITEM_NONE \<and> ITEM_SPEED \<noteq> ITEM_NONE \<and>
   free_cell (sample_game\<lparr>item_type := ITEM_SPEED\<rparr>) 4 6"
  using random_free_cell_is_free [of sample_libc sample_game 0 2 "sample_game\<lparr>rand_calls := 2\<rparr>"
      "sample_game\<lparr>rand_calls := 2, food_x := 0, food_y := 2\<rparr>"
      "sample_game\<lparr>rand_calls := 4, item_type := ITEM_SPEED, item_x := 4, item_y := 6\<rparr>"]
  by (simp add: random_free_cell_sample spawn_food_sample spawn_item_sample items_distinct)
    (simp add: sample_game_def power_on_def)

subsection \<open>C7: eating\<close>











subsection \<open>Input handling\<close>

lemma press_select_eq:
  "press_select b s =
     s\<lparr>highscore := (if select b \<and> \<not> prev_select s \<and> state s = STATE_TITLE then 0 else highscore s),
       prev_select := select b\<rparr>"
  by (simp add: press_select_def Let_def)

lemma press_start_disj:
  assumes "press_start L b s = Some s'"
  shows "(\<exists>r. start b \<and> \<not> prev_start s \<and> (state s = STATE_TITLE \<or> state s = STATE_GAMEOVER) \<and>
            game_reset L (s\<lparr>state := STATE_PLAY\<rparr>) = Some r \<and> s' = r\<lparr>prev_start := start b\<rparr>) \<or>
         (\<exists>g. s' = s\<lparr>state := g, prev_start := start b\<rparr> \<and>
            (g = state s \<or>
             start b \<and> \<not> prev_start s \<and>
               (state s = STATE_PLAY \<and> g = STATE_PAUSE \<or> state s = STATE_PAUSE \<and> g = STATE_PLAY)))"
proof (cases "start b \<and> \<not> prev_start s")
  case False
  with assms have "s' = s\<lparr>state := state s, prev_start := start b\<rparr>"
    by (auto simp add: press_start_def)
  then show ?thesis by blast
next
  case True
  consider "state s = STATE_TITLE \<or> state s = STATE_GAMEOVER" | "state s = STATE_PLAY"
    | "state s = STATE_PAUSE"
    | "state s \<noteq> STATE_TITLE" "state s \<noteq> STATE_GAMEOVER" "state s \<noteq> STATE_PLAY"
      "state s \<noteq> STATE_PAUSE"
    by blast
  then show ?thesis
  proof cases
    case 1
    with True assms obtain r where "game_reset L (s\<lparr>state := STATE_PLAY\<rparr>) = Some r"
      and "s' = r\<lparr>prev_start := start b\<rparr>"
      by (cases "game_reset L (s\<lparr>state := STATE_PLAY\<rparr>)")
        (auto simp add: press_start_def states_distinct)
    with True 1 show ?thesis by blast
  next
    case 2
    with True assms have "s' = s\<lparr>state := STATE_PAUSE, prev_start := start b\<rparr>"
      by (simp add: press_start_def states_distinct)
    with True 2 show ?thesis by blast
  next
    case 3
    with True assms have "s' = s\<lparr>state := STATE_PLAY, prev_start := start b\<rparr>"
      by (simp add: press_start_def states_distinct)
    with True 3 show ?thesis by blast
  next
    case 4
    with True assms have "s' = s\<lparr>state := state s, prev_start := start b\<rparr>"
      by (simp add: press_start_def)
    then show ?thesis by blast
  qed
qed

lemma press_start_cases:
  assumes "press_start L b s = Some s'"
  obtains (reset) r where "start b" and "\<not> prev_start s"
      and "state s = STATE_TITLE \<or> state s = STATE_GAMEOVER"
      and "game_reset L (s\<lparr>state := STATE_PLAY\<rparr>) = Some r"
      and "s' = r\<lparr>prev_start := start b\<rparr>"
    | (keep) g where "s' = s\<lparr>state := g, prev_start := start b\<rparr>"
      and "g = state s \<or>
             start b \<and> \<not> prev_start s \<and>
               (state s = STATE_PLAY \<and> g = STATE_PAUSE \<or> state s = STATE_PAUSE \<and> g = STATE_PLAY)"
  using press_start_disj [OF assms] by blast

lemma handle_input_split:
  assumes "handle_input L b s = Some s'"
  obtains s1 where "press_start L b s = Some s1" and "s' = turn b (press_select b s1)"
  using assms by (cases "press_start L b s") (simp_all add: handle_input_def)

lemma press_start_dirs:
  assumes "press_start L b s = Some s1" and "\<not> reverse_dir (pending_dir s) (snake_dir s)"
  shows "\<not> reverse_dir (pending_dir s1) (snake_dir s1)"
proof -
  from assms(1) show ?thesis
  proof (cases rule: press_start_cases)
    case (reset r)
    from game_reset_fields(4,5) [OF reset(4)] show ?thesis
      by (simp add: reset(5) reverse_dir_irrefl)
  next
    case (keep g)
    with assms(2) show ?thesis by simp
  qed
qed

lemma handle_input_dirs:
  assumes "handle_input L b s = Some s'" and "\<not> reverse_dir (pending_dir s) (snake_dir s)"
  shows "\<not> reverse_dir (pending_dir s') (snake_dir s')"
proof -
  from assms(1) obtain s1 where p: "press_start L b s = Some s1"
    and s': "s' = turn b (press_select b s1)"
    by (rule handle_input_split)
  from press_start_dirs [OF p assms(2)]
  have "\<not> reverse_dir (pending_dir (press_select b s1)) (snake_dir (press_select b s1))"
    by (simp add: press_select_eq)
  then show ?thesis unfolding s' by (rule turn_invariant)
qed

lemma handle_input_facing_right:
  assumes "handle_input L b s = Some s'" and "snake_dir s = DIR_RIGHT"
  shows "snake_dir s' = DIR_RIGHT"
    and "pending_dir s \<noteq> DIR_LEFT \<Longrightarrow> pending_dir s' \<noteq> DIR_LEFT"
    and "pending_dir s = DIR_RIGHT \<Longrightarrow> \<not> up b \<Longrightarrow> \<not> down b \<Longrightarrow> pending_dir s' = DIR_RIGHT"
proof -
  from assms(1) obtain s1 where p: "press_start L b s = Some s1"
    and s': "s' = turn b (press_select b s1)"
    by (rule handle_input_split)
  let ?q = "press_select b s1"
  have q: "snake_dir ?q = snake_dir s1" "pending_dir ?q = pending_dir s1"
    by (simp_all add: press_select_eq)
  from p have d: "snake_dir s1 = DIR_RIGHT \<and> (pending_dir s1 = pending_dir s \<or> pending_dir s1 = DIR_RIGHT)"
  proof (cases rule: press_start_cases)
    case (reset r)
    from game_reset_fields(4,5) [OF reset(4)] show ?thesis by (simp add: reset(5))
  next
    case (keep g)
    with assms(2) show ?thesis by simp
  qed
  from d q show "snake_dir s' = DIR_RIGHT"
    unfolding s' by (simp add: turn_def)
  from d q show "pending_dir s \<noteq> DIR_LEFT \<Longrightarrow> pending_dir s' \<noteq> DIR_LEFT"
    unfolding s' using dirs_distinct by (auto simp add: turn_def)
  from d q show "pending_dir s = DIR_RIGHT \<Longrightarrow> \<not> up b \<Longrightarrow> \<not> down b \<Longrightarrow> pending_dir s' = DIR_RIGHT"
    unfolding s' using dirs_distinct by (auto simp add: turn_def)
qed

subsection \<open>C8: the pending direction\<close>

text \<open>
  C8. Input handling never leaves a pending direction that is the reverse of the current
  one, if it did not find one; the turning block changes the pending direction only to a
  direction that is the reverse neither of the current direction nor of the direction
  pending so far; a tick makes the pending direction the current one and keeps it
  pending, so after a tick the two are equal. With the snake facing right and right
  pending, a frame with Left pressed (and neither Up nor Down) leaves right pending.
\<close>

theorem pending_dir_never_reverse:
  "(\<not> reverse_dir (pending_dir s) (snake_dir s) \<longrightarrow> handle_input L b s = Some s' \<longrightarrow>
      \<not> reverse_dir (pending_dir s') (snake_dir s')) \<and>
   (pending_dir (turn b s) = pending_dir s \<or>
      \<not> reverse_dir (pending_dir (turn b s)) (snake_dir s) \<and>
      \<not> reverse_dir (pending_dir (turn b s)) (pending_dir s)) \<and>
   (update_snake L s = Some t \<longrightarrow>
      snake_dir t = pending_dir s \<and> pending_dir t = pending_dir s \<and>
      \<not> reverse_dir (pending_dir t) (snake_dir t)) \<and>
   (snake_dir s = DIR_RIGHT \<longrightarrow> pending_dir s = DIR_RIGHT \<longrightarrow> left b \<longrightarrow> \<not> up b \<longrightarrow> \<not> down b \<longrightarrow>
      handle_input L b s = Some s' \<longrightarrow> snake_dir s' = DIR_RIGHT \<and> pending_dir s' = DIR_RIGHT)"
proof (intro conjI impI)
  assume "\<not> reverse_dir (pending_dir s) (snake_dir s)" "handle_input L b s = Some s'"
  then show "\<not> reverse_dir (pending_dir s') (snake_dir s')"
    by (rule handle_input_dirs [rotated])
next
  show "pending_dir (turn b s) = pending_dir s \<or>
      \<not> reverse_dir (pending_dir (turn b s)) (snake_dir s) \<and>
      \<not> reverse_dir (pending_dir (turn b s)) (pending_dir s)"
    by (rule turn_pending)
next
  assume u: "update_snake L s = Some t"
  from update_snake_frame [OF u] show "snake_dir t = pending_dir s" "pending_dir t = pending_dir s"
    by simp_all
  then show "\<not> reverse_dir (pending_dir t) (snake_dir t)"
    by (simp add: reverse_dir_irrefl)
next
  assume a: "snake_dir s = DIR_RIGHT" "pending_dir s = DIR_RIGHT" "\<not> up b" "\<not> down b"
    "handle_input L b s = Some s'"
  from handle_input_facing_right(1) [OF a(5) a(1)] show "snake_dir s' = DIR_RIGHT" .
  from handle_input_facing_right(3) [OF a(5) a(1) a(2) a(3) a(4)] show "pending_dir s' = DIR_RIGHT" .
qed

lemma handle_input_left_sample:
  "handle_input sample_libc left_only playing = Some playing"
  by (simp add: handle_input_def press_start_def press_select_def turn_def left_only_def
      playing_def sample_game_def power_on_def dirs_distinct states_distinct)

lemma update_snake_sample_wall:
  "update_snake sample_libc (playing\<lparr>pending_dir := DIR_LEFT\<rparr>) =
     Some (playing\<lparr>pending_dir := DIR_LEFT, snake_dir := DIR_LEFT, state := STATE_GAMEOVER\<rparr>)"
proof -
  have "fatal_collision (playing\<lparr>pending_dir := DIR_LEFT\<rparr>)"
    by (simp add: fatal_collision_def new_head_def candidate_def step_head_def outside_grid_def
        playing_def sample_game_def power_on_def dirs_distinct MAX_SNAKE_LENGTH_def GRID_W_def
        GRID_H_def word_sless_alt word_sle_eq)
  then show ?thesis by (simp add: update_snake_cases)
qed


lemma update_snake_sample_step:
  "update_snake sample_libc playing = Some (move_body playing 1 0)"
proof -
  have nf: "\<not> fatal_collision playing" and nh: "new_head playing = (1, 0)"
    by (simp_all add: playing_def sample_game_def power_on_def
      fatal_collision_def new_head_def candidate_def step_head_def outside_grid_def snake_at_def
      check_obstacle_collision_def dirs_distinct MAX_SNAKE_LENGTH_def
      GRID_W_def GRID_H_def word_sle_eq word_sless_alt upt_rec)
  have p: "playing\<lparr>snake_dir := pending_dir playing\<rparr> = playing"
    by (simp add: playing_def sample_game_def power_on_def)
  have f: "food_x playing = 0" "item_type playing = ITEM_NONE"
    by (simp_all add: playing_def sample_game_def power_on_def)
  have "commit_move sample_libc playing 1 0 = Some (move_body playing 1 0)"
    by (simp add: commit_move_def Let_def move_body_frame f) (simp add: move_body_eq f)
  with nf nh p show ?thesis by (simp add: update_snake_cases)
qed

theorem pending_dir_never_reverse_witness:
  "\<not> reverse_dir (pending_dir playing) (snake_dir playing) \<and>
   handle_input sample_libc left_only playing = Some playing \<and>
   update_snake sample_libc playing = Some (move_body playing 1 0) \<and>
   snake_dir playing = DIR_RIGHT \<and> pending_dir playing = DIR_RIGHT \<and>
   left left_only \<and> \<not> up left_only \<and> \<not> down left_only \<and>
   pending_dir (turn left_only playing) = DIR_RIGHT \<and>
   snake_dir (move_body playing 1 0) = DIR_RIGHT \<and> pending_dir (move_body playing 1 0) = DIR_RIGHT"
proof -
  have d: "snake_dir playing = DIR_RIGHT" "pending_dir playing = DIR_RIGHT"
    by (simp_all add: playing_def sample_game_def power_on_def)
  have b: "left left_only" "\<not> up left_only" "\<not> down left_only"
    by (simp_all add: left_only_def)
  have t: "pending_dir (turn left_only playing) = DIR_RIGHT"
    by (simp add: turn_def left_only_def d)
  from pending_dir_never_reverse [of playing sample_libc left_only playing "move_body playing 1 0"]
  show ?thesis
    by (simp add: d b t reverse_dir_irrefl handle_input_left_sample update_snake_sample_step)
qed

subsection \<open>C1: the size reported and the bytes written\<close>

text \<open>
  \<open>retro_serialize\<close> copies two arrays of \<open>MAX_SNAKE_LENGTH\<close> ints, ten further ints, three
  enums and one \<^verbatim>\<open>unsigned long\<close>: 9660 bytes. \<open>retro_serialize_size\<close> counts the two arrays,
  five ints, one enum and the \<^verbatim>\<open>unsigned long\<close>: 9632 bytes. The fields from
  \<open>speed_timer\<close> on (\<open>speed_timer\<close>, \<open>score\<close>, \<open>highscore\<close>, \<open>state\<close>, \<open>move_counter\<close>, \<open>frame_count\<close>)
  lie at offsets 9632 to 9659, behind the reported size.
\<close>

lemma retro_serialize_last_field:
  assumes "retro_serialize_size \<le> bufsize" and "k < 8"
  shows "snd (retro_serialize s m data bufsize) (data + retro_serialize_size + 20 + k)
         = ulong_rep (frame_count s) ! k"
  using assms
  by (simp add: retro_serialize_def retro_serialize_size_value Let_def sizes store_def)

text \<open>
  C1 (fails on the code). Serializing the power-on state into zeroed memory at address 0
  with exactly \<open>retro_serialize_size\<close> bytes announced succeeds and changes the byte at
  address \<open>retro_serialize_size + 16\<close>, the low byte of \<open>move_counter\<close>, which lies outside
  the buffer.
\<close>

theorem retro_serialize_writes_past_reported_size:
  "fst (retro_serialize power_on blank_memory 0 retro_serialize_size) \<and>
   snd (retro_serialize power_on blank_memory 0 retro_serialize_size) (retro_serialize_size + 16) = 8 \<and>
   blank_memory (retro_serialize_size + 16) \<noteq> 8"
  by (simp add: retro_serialize_def retro_serialize_size_value Let_def sizes store_def
      int_rep_def le_bytes_nth power_on_def BASE_MOVE_INTERVAL_def blank_memory_def)

subsection \<open>C3: round trip\<close>

lemma unserialize_serialize:
  assumes "length (snake_x s) = MAX_SNAKE_LENGTH" and "length (snake_y s) = MAX_SNAKE_LENGTH"
    and "retro_serialize_size \<le> bufsize"
  shows "retro_unserialize (snd (retro_serialize s m data bufsize)) data bufsize t
    = (True, t\<lparr>snake_x := snake_x s, snake_y := snake_y s, snake_length := snake_length s,
       snake_dir := snake_dir s, food_x := food_x s, food_y := food_y s,
       item_type := item_type s, item_x := item_x s, item_y := item_y s,
       phase_timer := phase_timer s, speed_timer := speed_timer s, score := score s,
       highscore := highscore s, state := state s, move_counter := move_counter s,
       frame_count := frame_count s\<rparr>)"
  using assms
  apply (simp add: retro_serialize_def retro_unserialize_def Let_def)
  apply (simp add: sizes load_store_same load_store_other length_array_rep length_int_rep
      length_ulong_rep le_word_int_rep le_word_ulong_rep array_of_rep_array_rep)
  done



subsection \<open>C4: a buffer that is too small\<close>

text \<open>
  C4. When the size passed in is smaller than \<open>retro_serialize_size\<close>, both
  \<open>retro_serialize\<close> and \<open>retro_unserialize\<close> return \<open>false\<close>; serialize leaves the
  caller's memory as it was and unserialize leaves every field of the game as it was.
\<close>

theorem too_small_buffer_rejected:
  "bufsize < retro_serialize_size \<Longrightarrow>
     retro_serialize s m data bufsize = (False, m) \<and>
     retro_unserialize m data bufsize s = (False, s)"
  by (simp add: retro_serialize_def retro_unserialize_def)

theorem too_small_buffer_rejected_witness:
  "(100 :: nat) < retro_serialize_size \<and>
   retro_serialize power_on (\<lambda>_. 0) 0 100 = (False, \<lambda>_. 0) \<and>
   retro_unserialize (\<lambda>_. 0) 0 100 power_on = (False, power_on)"
  using too_small_buffer_rejected [of 100 power_on "\<lambda>_. 0" 0]
  by (simp add: retro_serialize_size_value)


subsection \<open>C10: the head stays off the border\<close>

lemma core_inv_cong:
  assumes "snake_x s' = snake_x s" and "snake_y s' = snake_y s"
    and "snake_length s' = snake_length s" and "obstacle s' = obstacle s"
    and "length (particles s') = length (particles s)"
  shows "core_inv s' = core_inv s"
proof -
  from assms(1,2,3,5) have "state_ok s' = state_ok s" by (rule state_ok_cong)
  with assms show ?thesis by (simp add: core_inv_def border_walls_def head_inside_def)
qed

lemma sint_grid:
  "sint (of_nat GRID_W :: cint) = 40" "sint (of_nat GRID_H :: cint) = 30"
  "sint (of_nat GRID_W - 2 :: cint) = 38" "sint (of_nat GRID_H - 2 :: cint) = 28"
  "sint (of_nat GRID_W - 1 :: cint) = 39" "sint (of_nat GRID_H - 1 :: cint) = 29"
  by (simp_all add: GRID_W_def GRID_H_def)

lemma head_inside_sint:
  "head_inside s \<longleftrightarrow> 1 \<le> sint (snake_x s ! 0) \<and> sint (snake_x s ! 0) \<le> 38 \<and>
     1 \<le> sint (snake_y s ! 0) \<and> sint (snake_y s ! 0) \<le> 28"
  by (simp add: head_inside_def word_sle_eq sint_grid)

lemma outside_grid_sint:
  "outside_grid (x, y) \<longleftrightarrow> sint x < 0 \<or> 40 \<le> sint x \<or> sint y < 0 \<or> 30 \<le> sint y"
  by (simp add: outside_grid_def word_sle_eq word_sless_alt sint_grid)

lemma wrap_cell_inside:
  assumes "\<not> outside_grid (x, y)"
  shows "wrap_cell (x, y) = (x, y)"
  using assms by (simp add: wrap_cell_def outside_grid_def Let_def)

lemma step_head_sint:
  assumes "1 \<le> sint x" "sint x \<le> 38" "1 \<le> sint y" "sint y \<le> 28"
    and "step_head d (x, y) = (x', y')"
  shows "0 \<le> sint x' \<and> sint x' \<le> 39 \<and> 0 \<le> sint y' \<and> sint y' \<le> 29"
proof -
  have xi: "sint (x + 1) = sint x + 1" and xd: "sint (x - 1) = sint x - 1"
    using assms(1,2) by (simp_all add: sint_inc sint_dec)
  have yi: "sint (y + 1) = sint y + 1" and yd: "sint (y - 1) = sint y - 1"
    using assms(3,4) by (simp_all add: sint_inc sint_dec)
  from assms(5) have "(x', y') = (x, y - 1) \<or> (x', y') = (x, y + 1) \<or> (x', y') = (x - 1, y) \<or>
      (x', y') = (x + 1, y) \<or> (x', y') = (x, y)"
    by (auto simp add: step_head_def split: if_splits)
  with assms(1-4) xi xd yi yd show ?thesis by auto
qed

lemma candidate_inside:
  assumes "head_inside s"
  shows "\<not> outside_grid (candidate s)" and "wrap_cell (candidate s) = candidate s"
    and "new_head s = candidate s"
proof -
  obtain cx cy where c: "candidate s = (cx, cy)" by (cases "candidate s")
  then have "step_head (pending_dir s) (snake_x s ! 0, snake_y s ! 0) = (cx, cy)"
    by (simp add: candidate_def)
  with assms have "0 \<le> sint cx \<and> sint cx \<le> 39 \<and> 0 \<le> sint cy \<and> sint cy \<le> 29"
    by (intro step_head_sint [where d = "pending_dir s" and x = "snake_x s ! 0" and y = "snake_y s ! 0"])
      (simp_all add: head_inside_sint)
  then show o: "\<not> outside_grid (candidate s)"
    by (simp add: c outside_grid_sint)
  then show w: "wrap_cell (candidate s) = candidate s"
    unfolding c by (rule wrap_cell_inside)
  then show "new_head s = candidate s" by (simp add: new_head_def)
qed

lemma free_of_border_inside:
  assumes "border_walls s" and "\<not> outside_grid (x, y)" and "\<not> check_obstacle_collision s x y"
  shows "1 \<le> sint x \<and> sint x \<le> 38 \<and> 1 \<le> sint y \<and> sint y \<le> 28"
proof -
  from assms(2) have r: "0 \<le> sint x" "sint x < 40" "0 \<le> sint y" "sint y < 30"
    by (simp_all add: outside_grid_sint)
  with assms(3) have z: "obstacle s (nat (sint x), nat (sint y)) = 0"
    by (simp add: check_obstacle_collision_def word_sle_eq word_sless_alt sint_grid)
  from r have lt: "nat (sint x) < GRID_W" "nat (sint y) < GRID_H"
    by (simp_all add: GRID_W_def GRID_H_def)
  with assms(1) z have "\<not> (nat (sint x) = 0 \<or> nat (sint x) = GRID_W - 1 \<or>
      nat (sint y) = 0 \<or> nat (sint y) = GRID_H - 1)"
    unfolding border_walls_def by blast
  with r show ?thesis by (simp add: GRID_W_def GRID_H_def) linarith
qed

lemma update_snake_inv:
  assumes "core_inv s" and "update_snake L s = Some s'"
  shows "core_inv s'"
proof (cases "fatal_collision s")
  case True
  with assms(2) have "s' = s\<lparr>snake_dir := pending_dir s, state := STATE_GAMEOVER\<rparr>"
    by (simp add: update_snake_cases)
  then have "core_inv s' = core_inv s" by (intro core_inv_cong) simp_all
  with assms(1) show ?thesis by simp
next
  case False
  let ?t = "s\<lparr>snake_dir := pending_dir s\<rparr>"
  obtain x y where nh: "new_head s = (x, y)" by (cases "new_head s")
  from assms(1) have ok: "state_ok s" and bw: "border_walls s" and hi: "head_inside s"
    by (simp_all add: core_inv_def)
  from False assms(2) nh have c: "commit_move L ?t x y = Some s'"
    by (simp add: update_snake_cases)
  have "state_ok ?t = state_ok s" by (rule state_ok_cong) simp_all
  with ok have okt: "state_ok ?t" by simp
  note k = commit_move_ok [OF okt c]
  from commit_move_frame(1) [OF c] have ob: "obstacle s' = obstacle s"
    by (simp add: tick_frame_def)
  from candidate_inside [OF hi] nh have og: "\<not> outside_grid (x, y)" by simp
  from False nh have "\<not> check_obstacle_collision s x y"
    by (simp add: fatal_collision_def)
  from free_of_border_inside [OF bw og this] k have "head_inside s'"
    by (simp add: head_inside_sint)
  moreover from bw ob have "border_walls s'" by (simp add: border_walls_def)
  ultimately show ?thesis using k(1) by (simp add: core_inv_def)
qed


lemma handle_input_inv:
  assumes "core_inv s" and "handle_input L b s = Some s'"
  shows "core_inv s'"
proof -
  from assms(2) obtain s1 where p: "press_start L b s = Some s1"
    and s': "s' = turn b (press_select b s1)"
    by (rule handle_input_split)
  from p have "core_inv s1"
  proof (cases rule: press_start_cases)
    case (reset r)
    from assms(1) have "arrays_ok (s\<lparr>state := STATE_PLAY\<rparr>)"
      by (simp add: core_inv_def state_ok_def arrays_ok_def)
    from game_reset_inv [OF this reset(4)] have "core_inv r" by (simp add: core_inv_def)
    moreover have "core_inv s1 = core_inv r" by (rule core_inv_cong) (simp_all add: reset(5))
    ultimately show ?thesis by simp
  next
    case (keep g)
    have "core_inv s1 = core_inv s" by (rule core_inv_cong) (simp_all add: keep(1))
    with assms(1) show ?thesis by simp
  qed
  moreover have "core_inv (press_select b s1) = core_inv s1"
    by (rule core_inv_cong) (simp_all add: press_select_eq)
  moreover have "core_inv (turn b (press_select b s1)) = core_inv (press_select b s1)"
    by (rule core_inv_cong) (simp_all add: turn_def)
  ultimately show ?thesis by (simp add: s')
qed

lemma advance_cases:
  assumes "advance L s = Some s'"
  obtains (wait) "\<not> move_counter s - 1 \<le>s 0"
      and "s' = update_particles (s\<lparr>phase_timer := countdown (phase_timer s),
              speed_timer := countdown (speed_timer s), move_counter := move_counter s - 1\<rparr>)"
    | (tick) t where "move_counter s - 1 \<le>s 0"
      and "update_snake L (s\<lparr>phase_timer := countdown (phase_timer s),
              speed_timer := countdown (speed_timer s), move_counter := move_counter s - 1\<rparr>) = Some t"
      and "s' = update_particles (t\<lparr>move_counter :=
              (if 0 <s countdown (speed_timer s) then BASE_MOVE_INTERVAL div 2
               else BASE_MOVE_INTERVAL)\<rparr>)"
proof (cases "move_counter s - 1 \<le>s 0")
  case False
  with assms have "s' = update_particles (s\<lparr>phase_timer := countdown (phase_timer s),
              speed_timer := countdown (speed_timer s), move_counter := move_counter s - 1\<rparr>)"
    by (simp add: advance_def Let_def)
  with False show ?thesis by (rule wait)
next
  case True
  let ?p = "s\<lparr>phase_timer := countdown (phase_timer s),
              speed_timer := countdown (speed_timer s), move_counter := move_counter s - 1\<rparr>"
  from True assms obtain t where t: "update_snake L ?p = Some t"
    by (cases "update_snake L ?p") (simp_all add: advance_def Let_def)
  with True assms have "s' = update_particles (t\<lparr>move_counter :=
              (if 0 <s countdown (speed_timer s) then BASE_MOVE_INTERVAL div 2
               else BASE_MOVE_INTERVAL)\<rparr>)"
    by (simp add: advance_def Let_def)
  with True t show ?thesis by (rule tick)
qed

lemma retro_run_split:
  assumes "retro_run L b s = Some s'"
  obtains s1 s2 where "handle_input L b s = Some s1"
    and "(if state s1 = STATE_PLAY then advance L s1 else Some s1) = Some s2"
    and "s' = s2\<lparr>frame_count := frame_count s2 + 1\<rparr>"
proof -
  from assms obtain s1 where h: "handle_input L b s = Some s1"
    by (cases "handle_input L b s") (simp_all add: retro_run_def)
  with assms obtain s2 where a: "(if state s1 = STATE_PLAY then advance L s1 else Some s1) = Some s2"
    by (cases "if state s1 = STATE_PLAY then advance L s1 else Some s1")
      (simp_all add: retro_run_def)
  with assms h have "s' = s2\<lparr>frame_count := frame_count s2 + 1\<rparr>"
    by (simp add: retro_run_def)
  with h a show ?thesis by (rule that)
qed

lemma advance_inv:
  assumes "core_inv s" and "advance L s = Some s'"
  shows "core_inv s'"
proof -
  let ?p = "s\<lparr>phase_timer := countdown (phase_timer s),
              speed_timer := countdown (speed_timer s), move_counter := move_counter s - 1\<rparr>"
  have "core_inv ?p = core_inv s" by (rule core_inv_cong) simp_all
  with assms(1) have p: "core_inv ?p" by simp
  from assms(2) show ?thesis
  proof (cases rule: advance_cases)
    case wait
    have "core_inv s' = core_inv ?p"
      by (rule core_inv_cong) (simp_all add: wait(2) update_particles_def)
    with p show ?thesis by simp
  next
    case (tick t)
    from update_snake_inv [OF p tick(2)] have "core_inv t" .
    moreover have "core_inv s' = core_inv t"
      by (rule core_inv_cong) (simp_all add: tick(3) update_particles_def)
    ultimately show ?thesis by simp
  qed
qed

lemma retro_run_inv:
  assumes "core_inv s" and "retro_run L b s = Some s'"
  shows "core_inv s'"
proof -
  from assms(2) obtain s1 s2 where h: "handle_input L b s = Some s1"
    and a: "(if state s1 = STATE_PLAY then advance L s1 else Some s1) = Some s2"
    and s': "s' = s2\<lparr>frame_count := frame_count s2 + 1\<rparr>"
    by (rule retro_run_split)
  from handle_input_inv [OF assms(1) h] have "core_inv s1" .
  with a have "core_inv s2"
    by (cases "state s1 = STATE_PLAY") (auto intro: advance_inv)
  moreover have "core_inv s' = core_inv s2" by (rule core_inv_cong) (simp_all add: s')
  ultimately show ?thesis by simp
qed

lemma reachable_inv: "reachable L s \<Longrightarrow> core_inv s"
proof (induction rule: reachable.induct)
  case (reset s s')
  from game_reset_inv [OF reset] show ?case by (simp add: core_inv_def)
next
  case (tick s s')
  from update_snake_inv [OF tick(3) tick(2)] show ?case .
next
  case (input s b s')
  from handle_input_inv [OF input(3) input(2)] show ?case .
next
  case (frame s b s')
  from retro_run_inv [OF frame(3) frame(2)] show ?case .
qed

lemma random_free_cell_first:
  assumes "\<not> snake_at s (of_nat (rand_value L (rand_calls s) mod GRID_W))
               (of_nat (rand_value L (Suc (rand_calls s)) mod GRID_H))"
    and "obstacle s (rand_value L (rand_calls s) mod GRID_W,
                      rand_value L (Suc (rand_calls s)) mod GRID_H) = 0"
    and "item_type s = ITEM_NONE"
  shows "random_free_cell L s =
     Some (of_nat (rand_value L (rand_calls s) mod GRID_W),
           of_nat (rand_value L (Suc (rand_calls s)) mod GRID_H),
           s\<lparr>rand_calls := Suc (Suc (rand_calls s))\<rparr>)"
  using assms by (subst random_free_cell.simps) (simp add: rand_def Let_def)

lemma pick_obstacle_cell_first:
  assumes "snake_x s ! 0 \<noteq> of_nat (rand_value L (rand_calls s) mod GRID_W) \<or>
           snake_y s ! 0 \<noteq> of_nat (rand_value L (Suc (rand_calls s)) mod GRID_H)"
    and "food_x s \<noteq> of_nat (rand_value L (rand_calls s) mod GRID_W) \<or>
           food_y s \<noteq> of_nat (rand_value L (Suc (rand_calls s)) mod GRID_H)"
    and "item_type s = ITEM_NONE"
    and "obstacle s (rand_value L (rand_calls s) mod GRID_W,
                      rand_value L (Suc (rand_calls s)) mod GRID_H) = 0"
  shows "pick_obstacle_cell L s =
     Some (rand_value L (rand_calls s) mod GRID_W, rand_value L (Suc (rand_calls s)) mod GRID_H,
           s\<lparr>rand_calls := Suc (Suc (rand_calls s))\<rparr>)"
  using assms by (subst pick_obstacle_cell.simps) (auto simp add: rand_def Let_def)

lemma of_nat_small_eq:
  assumes "(of_nat n :: cint) = of_nat m" and "n < 2 ^ 31" and "m < 2 ^ 31"
  shows "n = m"
proof -
  from assms(1) have "unat (of_nat n :: cint) = unat (of_nat m :: cint)" by simp
  with assms(2,3) show ?thesis by (simp add: unat_of_nat_small)
qed

lemma place_obstacles_counting:
  assumes "rand_value L = Suc" and "rand_calls s + 2 * k \<le> 28" and "1 \<le> rand_calls s"
    and "snake_x s ! 0 = 20" and "snake_y s ! 0 = 15" and "food_x s = 1" and "food_y s = 2"
    and "item_type s = ITEM_NONE"
    and "\<forall>a. rand_calls s \<le> a \<and> a \<le> 26 \<longrightarrow> obstacle s (Suc a, Suc (Suc a)) = 0"
  shows "\<exists>r. place_obstacles L k s = Some r"
  using assms
proof (induction k arbitrary: s)
  case 0
  show ?case by simp
next
  case (Suc k)
  define c where "c = rand_calls s"
  from Suc.prems(2) have c: "c \<le> 26" by (simp add: c_def)
  from Suc.prems(3) have c1: "1 \<le> c" by (simp add: c_def)
  have x: "rand_value L (rand_calls s) mod GRID_W = Suc c"
    and y: "rand_value L (Suc (rand_calls s)) mod GRID_H = Suc (Suc c)"
    using c by (simp_all add: Suc.prems(1) c_def [symmetric] GRID_W_def GRID_H_def)
  have small: "Suc c < 2 ^ 31" "Suc (Suc c) < 2 ^ 31" using c by simp_all
  have head: "snake_x s ! 0 \<noteq> of_nat (Suc c) \<or> snake_y s ! 0 \<noteq> of_nat (Suc (Suc c))"
  proof (rule ccontr)
    assume "\<not> ?thesis"
    then have "(of_nat (Suc c) :: cint) = of_nat 20" "(of_nat (Suc (Suc c)) :: cint) = of_nat 15"
      by (simp_all add: Suc.prems(4,5))
    then have "Suc c = 20" "Suc (Suc c) = 15"
      using small by (auto dest: of_nat_small_eq)
    then show False by simp
  qed
  have food: "food_x s \<noteq> of_nat (Suc c) \<or> food_y s \<noteq> of_nat (Suc (Suc c))"
  proof (rule ccontr)
    assume "\<not> ?thesis"
    then have "(of_nat (Suc c) :: cint) = of_nat 1"
      by (simp add: Suc.prems(6))
    from of_nat_small_eq [OF this small(1)] have "Suc c = 1" by simp
    with c1 show False by simp
  qed
  from Suc.prems(9) c have ob: "obstacle s (Suc c, Suc (Suc c)) = 0"
    by (simp add: c_def)
  let ?s2 = "s\<lparr>rand_calls := Suc (Suc (rand_calls s))\<rparr>"
  have p: "pick_obstacle_cell L s = Some (Suc c, Suc (Suc c), ?s2)"
    using pick_obstacle_cell_first [of s L] head food ob Suc.prems(8)
    by (simp only: x y)
  let ?t = "?s2\<lparr>obstacle := (obstacle ?s2)((Suc c, Suc (Suc c)) := 1),
                 obstacle_count := obstacle_count ?s2 + 1\<rparr>"
  have "\<exists>r. place_obstacles L k ?t = Some r"
  proof (rule Suc.IH)
    show "rand_value L = Suc" by (rule Suc.prems(1))
    show "rand_calls ?t + 2 * k \<le> 28" using Suc.prems(2) by simp
    show "1 \<le> rand_calls ?t" by simp
    show "snake_x ?t ! 0 = 20" "snake_y ?t ! 0 = 15" "food_x ?t = 1" "food_y ?t = 2"
      "item_type ?t = ITEM_NONE"
      by (simp_all add: Suc.prems)
    show "\<forall>a. rand_calls ?t \<le> a \<and> a \<le> 26 \<longrightarrow> obstacle ?t (Suc a, Suc (Suc a)) = 0"
      using Suc.prems(9) by (simp add: c_def)
  qed
  then show ?case by (simp add: p)
qed

lemma game_reset_counting: "\<exists>r. game_reset counting_libc power_on = Some r"
proof -
  define s0 where "s0 = reset_vars power_on"
  have ok: "arrays_ok power_on"
    by (simp add: arrays_ok_def power_on_def)
  have rc: "rand_calls s0 = 0" and it: "item_type s0 = ITEM_NONE" and ob0: "obstacle s0 = (\<lambda>_. 0)"
    by (simp_all add: s0_def reset_vars_fields power_on_def)
  have hd: "snake_x s0 ! 0 = 20" "snake_y s0 ! 0 = 15"
    unfolding s0_def by (rule reset_vars_head [OF ok])+
  have sn: "\<not> snake_at s0 1 2"
    by (simp add: s0_def snake_at_def reset_vars_def Let_def power_on_def MAX_SNAKE_LENGTH_def
        GRID_W_def GRID_H_def upt_rec nth_list_update)
  define s1 where "s1 = s0\<lparr>rand_calls := Suc (Suc 0), food_x := 1, food_y := 2\<rparr>"
  have "random_free_cell counting_libc s0 = Some (1, 2, s0\<lparr>rand_calls := Suc (Suc 0)\<rparr>)"
    using random_free_cell_first [of s0 counting_libc] sn
    by (simp add: rc it ob0 counting_libc_def GRID_W_def GRID_H_def)
  then have food: "spawn_food counting_libc s0 = Some s1"
    by (simp add: spawn_food_def s1_def)
  define ob where "ob = fold (\<lambda>y ob. ob((0, y) := 1, (GRID_W - 1, y) := 1)) [0..<GRID_H]
              (fold (\<lambda>x ob. ob((x, 0) := 1, (x, GRID_H - 1) := 1)) [0..<GRID_W] (obstacle s1))"
  let ?t = "s1\<lparr>obstacle := ob, obstacle_count := of_nat (2 * (GRID_W + GRID_H) - 4)\<rparr>"
  have sp: "spawn_obstacles counting_libc s1 = place_obstacles counting_libc 12 ?t"
    unfolding ob_def spawn_obstacles_def Let_def by (simp add: GRID_W_def GRID_H_def)
  have obc: "ob c = (if snd c < GRID_H \<and> (fst c = 0 \<or> fst c = GRID_W - 1) then 1
                    else if fst c < GRID_W \<and> (snd c = 0 \<or> snd c = GRID_H - 1) then 1
                    else obstacle s1 c)" for c
    unfolding ob_def by (simp only: border_rows border_columns)
  have "\<exists>r. place_obstacles counting_libc 12 ?t = Some r"
  proof (rule place_obstacles_counting)
    show "rand_value counting_libc = Suc" by (simp add: counting_libc_def)
    show "rand_calls ?t + 2 * 12 \<le> 28" "1 \<le> rand_calls ?t" by (simp_all add: s1_def)
    show "snake_x ?t ! 0 = 20" "snake_y ?t ! 0 = 15" "food_x ?t = 1" "food_y ?t = 2"
      "item_type ?t = ITEM_NONE"
      by (simp_all add: s1_def hd it)
    show "\<forall>a. rand_calls ?t \<le> a \<and> a \<le> 26 \<longrightarrow> obstacle ?t (Suc a, Suc (Suc a)) = 0"
      by (simp add: obc s1_def ob0 GRID_W_def GRID_H_def)
  qed
  with food sp show ?thesis
    by (simp add: game_reset_def s0_def [symmetric])
qed

text \<open>
  C10. In every game that \<^verbatim>\<open>game_reset\<close> produces, and in every game reached from one by
  ticks, input handling and frames, the head is on no border cell: its column is neither 0
  nor \<^verbatim>\<open>GRID_W - 1\<close> and its row neither 0 nor \<^verbatim>\<open>GRID_H - 1\<close>, the ring of border cells being
  occupied by obstacles. So the cell one step ahead is on the grid, whatever the pending
  direction: the test of the wall death fails, and wrapping leaves the cell as it is.
\<close>

theorem head_never_on_border:
  assumes "reachable L s"
  shows "snake_x s ! 0 \<noteq> 0 \<and> snake_x s ! 0 \<noteq> of_nat GRID_W - 1 \<and>
    snake_y s ! 0 \<noteq> 0 \<and> snake_y s ! 0 \<noteq> of_nat GRID_H - 1 \<and>
    head_inside s \<and> border_walls s \<and>
    \<not> outside_grid (candidate s) \<and> wrap_cell (candidate s) = candidate s \<and>
    new_head s = candidate s"
proof -
  from reachable_inv [OF assms] have hi: "head_inside s" and bw: "border_walls s"
    by (simp_all add: core_inv_def)
  from hi have "sint (snake_x s ! 0) \<noteq> 0" "sint (snake_x s ! 0) \<noteq> 39"
    "sint (snake_y s ! 0) \<noteq> 0" "sint (snake_y s ! 0) \<noteq> 29"
    by (simp_all add: head_inside_sint)
  then have "snake_x s ! 0 \<noteq> 0" "snake_x s ! 0 \<noteq> of_nat GRID_W - 1"
    "snake_y s ! 0 \<noteq> 0" "snake_y s ! 0 \<noteq> of_nat GRID_H - 1"
    using sint_grid(5,6) by auto
  with hi bw candidate_inside [OF hi] show ?thesis by simp
qed

theorem head_never_on_border_witness:
  "reachable counting_libc first_game \<and>
   snake_x first_game ! 0 = 20 \<and> snake_y first_game ! 0 = 15 \<and>
   snake_x first_game ! 0 \<noteq> 0 \<and> snake_x first_game ! 0 \<noteq> of_nat GRID_W - 1 \<and>
   snake_y first_game ! 0 \<noteq> 0 \<and> snake_y first_game ! 0 \<noteq> of_nat GRID_H - 1 \<and>
   head_inside first_game \<and> border_walls first_game \<and>
   \<not> outside_grid (candidate first_game) \<and>
   wrap_cell (candidate first_game) = candidate first_game \<and>
   new_head first_game = candidate first_game"
proof -
  from game_reset_counting obtain r where r: "game_reset counting_libc power_on = Some r" ..
  then have fg: "first_game = r" by (simp add: first_game_def)
  have ok: "arrays_ok power_on"
    by (simp add: arrays_ok_def power_on_def)
  from ok r have re: "reachable counting_libc first_game"
    unfolding fg by (rule reachable.reset)
  have "snake_x first_game ! 0 = 20" "snake_y first_game ! 0 = 15"
    by (simp_all add: fg game_reset_fields [OF r] reset_vars_head [OF ok])
  with re head_never_on_border [OF re] show ?thesis by simp
qed

subsection \<open>C9: the high score\<close>

lemma press_start_scores:
  assumes "press_start L b s = Some s0"
  shows "highscore s0 = highscore s" and "score s0 = score s \<or> score s0 = 0"
    and "prev_select s0 = prev_select s"
    and "state s0 = STATE_TITLE \<longleftrightarrow> state s = STATE_TITLE \<and> \<not> (start b \<and> \<not> prev_start s)"
    and "state s0 = STATE_TITLE \<Longrightarrow> score s0 = score s"
proof -
  have "highscore s0 = highscore s \<and> (score s0 = score s \<or> score s0 = 0) \<and>
    prev_select s0 = prev_select s \<and>
    (state s0 = STATE_TITLE \<longleftrightarrow> state s = STATE_TITLE \<and> \<not> (start b \<and> \<not> prev_start s)) \<and>
    (state s0 = STATE_TITLE \<longrightarrow> score s0 = score s)"
  proof (cases "start b \<and> \<not> prev_start s")
    case False
    with assms have "s0 = s\<lparr>prev_start := start b\<rparr>"
      by (auto simp add: press_start_def)
    with False show ?thesis by simp
  next
    case True
    from assms show ?thesis
    proof (cases rule: press_start_cases)
      case (reset r)
      note f = game_reset_fields [OF reset(4)]
      from f(6,7,8,14) True show ?thesis
        by (simp add: reset(5) states_distinct)
    next
      case (keep g)
      have "state s \<noteq> STATE_TITLE"
      proof
        assume t: "state s = STATE_TITLE"
        with True assms obtain r where r: "game_reset L (s\<lparr>state := STATE_PLAY\<rparr>) = Some r"
          and s0: "s0 = r\<lparr>prev_start := start b\<rparr>"
          by (cases "game_reset L (s\<lparr>state := STATE_PLAY\<rparr>)") (simp_all add: press_start_def)
        from game_reset_fields(8) [OF r] have "state s0 = STATE_PLAY" by (simp add: s0)
        moreover from keep t have "state s0 = STATE_TITLE"
          by (auto simp add: states_distinct)
        ultimately show False by (simp add: states_distinct)
      qed
      with keep True show ?thesis by (auto simp add: states_distinct)
    qed
  qed
  then show "highscore s0 = highscore s" and "score s0 = score s \<or> score s0 = 0"
    and "prev_select s0 = prev_select s"
    and "state s0 = STATE_TITLE \<longleftrightarrow> state s = STATE_TITLE \<and> \<not> (start b \<and> \<not> prev_start s)"
    and "state s0 = STATE_TITLE \<Longrightarrow> score s0 = score s"
    by simp_all
qed

lemma turn_fields:
  "highscore (turn b s) = highscore s" "score (turn b s) = score s" "state (turn b s) = state s"
  "phase_timer (turn b s) = phase_timer s" "speed_timer (turn b s) = speed_timer s"
  "move_counter (turn b s) = move_counter s"
  by (simp_all add: turn_def)

lemma handle_input_scores:
  assumes "handle_input L b s = Some s1"
  shows "highscore s1 = (if clears_highscore b s then 0 else highscore s)"
    and "score s1 = score s \<or> score s1 = 0"
    and "state s1 = STATE_TITLE \<longleftrightarrow> state s = STATE_TITLE \<and> \<not> (start b \<and> \<not> prev_start s)"
    and "state s1 = STATE_TITLE \<Longrightarrow> score s1 = score s"
proof -
  from assms obtain s0 where p: "press_start L b s = Some s0"
    and s1: "s1 = turn b (press_select b s0)"
    by (rule handle_input_split)
  note f = press_start_scores [OF p]
  show "highscore s1 = (if clears_highscore b s then 0 else highscore s)"
    using f(1,3,4) by (auto simp add: s1 turn_fields press_select_eq clears_highscore_def)
  show "score s1 = score s \<or> score s1 = 0"
    using f(2) by (simp add: s1 turn_fields press_select_eq)
  show "state s1 = STATE_TITLE \<longleftrightarrow> state s = STATE_TITLE \<and> \<not> (start b \<and> \<not> prev_start s)"
    using f(4) by (simp add: s1 turn_fields press_select_eq)
  show "state s1 = STATE_TITLE \<Longrightarrow> score s1 = score s"
    using f(5) by (simp add: s1 turn_fields press_select_eq)
qed

lemma score_step_sint:
  assumes "score_step s s'" and "sint (score s) \<le> sint (highscore s)"
  shows "sint (highscore s') = max (sint (highscore s)) (sint (score s'))"
  using assms by (auto simp add: score_step_def word_sless_alt max_def)

lemma score_step_mono: "score_step s s' \<Longrightarrow> highscore s \<le>s highscore s'"
  by (auto simp add: score_step_def word_sle_eq word_sless_alt)

lemma advance_scores:
  assumes "advance L s = Some s'"
  shows "score_step s s'" and "state s' = state s \<or> state s' = STATE_GAMEOVER"
proof -
  let ?p = "s\<lparr>phase_timer := countdown (phase_timer s),
              speed_timer := countdown (speed_timer s), move_counter := move_counter s - 1\<rparr>"
  from assms have "score_step s s' \<and> (state s' = state s \<or> state s' = STATE_GAMEOVER)"
  proof (cases rule: advance_cases)
    case wait
    then show ?thesis by (simp add: score_step_def update_particles_def)
  next
    case (tick t)
    from update_snake_frame [OF tick(2)]
    have "state t = state ?p \<or> state t = STATE_GAMEOVER" and "score_step ?p t" by simp_all
    then have "state t = state s \<or> state t = STATE_GAMEOVER" and "score_step s t"
      by (simp_all add: score_step_def cong: if_cong)
    then show ?thesis by (simp add: score_step_def update_particles_def tick(3) cong: if_cong)
  qed
  then show "score_step s s'" and "state s' = state s \<or> state s' = STATE_GAMEOVER" by simp_all
qed

lemma retro_run_clear:
  assumes "retro_run L b s = Some s'" and "clears_highscore b s"
  shows "highscore s' = 0" and "score s' = score s" and "state s' = STATE_TITLE"
proof -
  from assms(1) obtain s1 s2 where h: "handle_input L b s = Some s1"
    and a: "(if state s1 = STATE_PLAY then advance L s1 else Some s1) = Some s2"
    and s': "s' = s2\<lparr>frame_count := frame_count s2 + 1\<rparr>"
    by (rule retro_run_split)
  note f = handle_input_scores [OF h]
  from f(3) assms(2) have t: "state s1 = STATE_TITLE" by (simp add: clears_highscore_def)
  with a have "s2 = s1" by (simp add: states_distinct)
  with t f(1) f(4) [OF t] assms(2) show "highscore s' = 0" and "score s' = score s"
    and "state s' = STATE_TITLE"
    by (simp_all add: s')
qed

lemma retro_run_keep:
  assumes "retro_run L b s = Some s'" and "\<not> clears_highscore b s"
  obtains s1 where "highscore s1 = highscore s" and "score s1 = score s \<or> score s1 = 0"
    and "score_step s1 s'" and "state s' = STATE_TITLE \<longrightarrow> state s = STATE_TITLE \<and> score s' = score s"
proof -
  from assms(1) obtain s1 s2 where h: "handle_input L b s = Some s1"
    and a: "(if state s1 = STATE_PLAY then advance L s1 else Some s1) = Some s2"
    and s': "s' = s2\<lparr>frame_count := frame_count s2 + 1\<rparr>"
    by (rule retro_run_split)
  note f = handle_input_scores [OF h]
  from f(1) assms(2) have 1: "highscore s1 = highscore s" by simp
  have 2: "score_step s1 s' \<and> (state s' = STATE_TITLE \<longrightarrow> state s = STATE_TITLE \<and> score s' = score s)"
  proof (cases "state s1 = STATE_PLAY")
    case True
    with a have adv: "advance L s1 = Some s2" by simp
    from advance_scores [OF adv] True show ?thesis
      by (auto simp add: s' score_step_def states_distinct)
  next
    case False
    with a have "s2 = s1" by simp
    with f(3,4) show ?thesis by (auto simp add: s' score_step_def)
  qed
  from 2 have 3: "score_step s1 s'"
    and 4: "state s' = STATE_TITLE \<longrightarrow> state s = STATE_TITLE \<and> score s' = score s"
    by simp_all
  from 1 f(2) 3 4 show ?thesis by (rule that)
qed

lemma observed_inv:
  "observed L s m \<Longrightarrow>
     sint (highscore s) = m \<and> 0 \<le> m \<and> sint (score s) \<le> m \<and> (state s = STATE_TITLE \<longrightarrow> score s = 0)"
proof (induction rule: observed.induct)
  case (init s)
  then have "game_reset L (power_on\<lparr>state := STATE_TITLE\<rparr>) = Some s" by (simp add: retro_init_def)
  from game_reset_fields(6,7) [OF this] show ?case by (simp add: power_on_def)
next
  case (reset s m s')
  then have "game_reset L s = Some s'" by (simp add: retro_reset_def)
  from game_reset_fields(6,7) [OF this] reset.IH show ?case by simp
next
  case (run s m b s')
  from run(2,3) obtain s1 where 1: "highscore s1 = highscore s"
    and 2: "score s1 = score s \<or> score s1 = 0" and 3: "score_step s1 s'"
    and 4: "state s' = STATE_TITLE \<longrightarrow> state s = STATE_TITLE \<and> score s' = score s"
    by (rule retro_run_keep)
  from run.IH 1 2 have le: "sint (score s1) \<le> sint (highscore s1)" by auto
  from score_step_sint [OF 3 le] have "sint (highscore s') = max m (sint (score s'))"
    using run.IH by (simp add: 1)
  moreover from run.IH have "0 \<le> max m (sint (score s'))" by (auto simp add: max_def)
  moreover from 4 run.IH have "state s' = STATE_TITLE \<longrightarrow> score s' = 0" by simp
  ultimately show ?case by simp
next
  case (clear s m b s')
  from clear(3) have "state s = STATE_TITLE" by (simp add: clears_highscore_def)
  with retro_run_clear [OF clear(2,3)] clear.IH show ?case by simp
qed

lemma unserialize_highscore:
  "highscore (snd (retro_unserialize mem data bufsize s)) =
     (if bufsize < retro_serialize_size then highscore s
      else le_word (load mem (data + 9640) sizeof_int))"
  by (simp add: retro_unserialize_def Let_def sizes add.commute)


lemma title_frame:
  assumes "state s = STATE_TITLE"
  shows "retro_run L no_buttons s =
     Some (s\<lparr>prev_start := False, prev_select := False, frame_count := frame_count s + 1\<rparr>)"
  using assms
  by (simp add: retro_run_def handle_input_def press_start_def press_select_def turn_def
      no_buttons_def states_distinct)

lemma load_saved_highscore:
  "retro_unserialize (snd (retro_serialize power_on blank_memory 0 retro_serialize_size)) 0
     retro_serialize_size (power_on\<lparr>score := 50, highscore := 50\<rparr>) = (True, power_on)"
  by (subst unserialize_serialize) (simp_all add: power_on_def)


lemma first_game_reset: "game_reset counting_libc power_on = Some first_game"
  using game_reset_counting by (auto simp add: first_game_def)

lemma first_game_title: "state first_game = STATE_TITLE" "score first_game = 0"
  "highscore first_game = 0"
  using game_reset_fields(6,7,8) [OF first_game_reset] by (simp_all add: power_on_def)

text \<open>
  C9, amended. A reset keeps the high score. A frame that does not clear the high score
  never lowers it, and a frame that clears it leaves it 0. After \<^verbatim>\<open>retro_init\<close> and any
  sequence of resets and frames the high score is the largest score seen after a call
  since the last clearing frame. Loading a save state is the exception: \<^verbatim>\<open>retro_unserialize\<close>,
  when it accepts the buffer, replaces the high score by the four bytes stored at offset
  9640 of the buffer, whatever the high score was.
\<close>

theorem highscore_history:
  "(game_reset L s = Some s' \<longrightarrow> highscore s' = highscore s) \<and>
   (retro_run L b s = Some s' \<longrightarrow>
      (if clears_highscore b s then highscore s' = 0 else highscore s \<le>s highscore s')) \<and>
   (observed L s m \<longrightarrow> sint (highscore s) = m) \<and>
   highscore (snd (retro_unserialize mem data bufsize s)) =
     (if bufsize < retro_serialize_size then highscore s
      else le_word (load mem (data + 9640) sizeof_int))"
proof (intro conjI impI)
  assume "game_reset L s = Some s'"
  then show "highscore s' = highscore s" by (rule game_reset_fields(7))
next
  assume r: "retro_run L b s = Some s'"
  show "if clears_highscore b s then highscore s' = 0 else highscore s \<le>s highscore s'"
  proof (cases "clears_highscore b s")
    case True
    with retro_run_clear(1) [OF r True] show ?thesis by simp
  next
    case False
    from r False obtain s1 where "highscore s1 = highscore s" and "score_step s1 s'"
      by (rule retro_run_keep)
    with score_step_mono [of s1 s'] False show ?thesis by simp
  qed
next
  assume "observed L s m"
  from observed_inv [OF this] show "sint (highscore s) = m" by simp
next
  show "highscore (snd (retro_unserialize mem data bufsize s)) =
     (if bufsize < retro_serialize_size then highscore s
      else le_word (load mem (data + 9640) sizeof_int))"
    by (rule unserialize_highscore)
qed

theorem highscore_history_witness:
  "game_reset counting_libc power_on = Some first_game \<and>
   highscore first_game = highscore power_on \<and>
   retro_run counting_libc no_buttons first_game =
     Some (first_game\<lparr>prev_start := False, prev_select := False,
                      frame_count := frame_count first_game + 1\<rparr>) \<and>
   \<not> clears_highscore no_buttons first_game \<and>
   highscore first_game \<le>s
     highscore (first_game\<lparr>prev_start := False, prev_select := False,
                            frame_count := frame_count first_game + 1\<rparr>) \<and>
   observed counting_libc first_game 0 \<and> sint (highscore first_game) = 0"
proof -
  have "retro_init counting_libc power_on = Some first_game"
    using first_game_reset by (simp add: retro_init_def power_on_def)
  from observed.init [OF this] have o: "observed counting_libc first_game 0"
    by (simp add: first_game_title)
  have c: "\<not> clears_highscore no_buttons first_game"
    by (simp add: clears_highscore_def no_buttons_def)
  from o c highscore_history [where L = counting_libc and s = power_on and s' = first_game]
    highscore_history [where L = counting_libc and s = first_game and b = no_buttons and m = 0
      and s' = "first_game\<lparr>prev_start := False, prev_select := False,
                      frame_count := frame_count first_game + 1\<rparr>"]
  show ?thesis
    by (simp add: first_game_reset title_frame [OF first_game_title(1)])
qed

text \<open>
  The high score does decrease without a clear: a state saved at power-on and loaded into
  a game whose score and high score are 50 sets the high score back to 0.
\<close>

theorem load_lowers_highscore:
  "fst (retro_unserialize (snd (retro_serialize power_on blank_memory 0 retro_serialize_size)) 0
     retro_serialize_size (power_on\<lparr>score := 50, highscore := 50\<rparr>)) \<and>
   highscore (snd (retro_unserialize
     (snd (retro_serialize power_on blank_memory 0 retro_serialize_size)) 0
     retro_serialize_size (power_on\<lparr>score := 50, highscore := 50\<rparr>))) = 0 \<and>
   highscore (snd (retro_unserialize
     (snd (retro_serialize power_on blank_memory 0 retro_serialize_size)) 0
     retro_serialize_size (power_on\<lparr>score := 50, highscore := 50\<rparr>)))
     <s highscore (power_on\<lparr>score := 50, highscore := 50\<rparr>)"
  by (simp add: load_saved_highscore) (simp add: power_on_def word_sless_alt)

subsection \<open>C2: the timers\<close>























end
